theory Spec2Isabelle
  imports Complex_Main
begin

section \<open>TSMT$DataStats: a shallow embedding of src/src/DataStats.ts\<close>

text \<open>
  Conventions of the embedding.
  \<^item> A sample value is a finite JavaScript number and is modelled as a \<^typ>\<open>real\<close>:
    rounding, overflow and the sign of zero are not modelled.
  \<^item> A value the code computes with a division whose divisor may be zero, with
    \<^verbatim>\<open>Math.sqrt\<close>, or from \<^verbatim>\<open>undefined\<close>, is a \<open>number\<close>: a real, an infinity or NaN.
  \<^item> Arrays live in a store (\<open>heap\<close>); an array reference is an address, and a
    parameter that may be \<^verbatim>\<open>undefined\<close> or \<^verbatim>\<open>null\<close> is a \<open>ref option\<close>.
  \<^item> The private fields \<^verbatim>\<open>_data\<close>, \<^verbatim>\<open>_mean\<close>, ... are the record fields \<open>p_data\<close>,
    \<open>p_mean\<close>, ...; a getter that writes a field returns the new engine state.
\<close>

subsection \<open>JavaScript numbers\<close>

datatype number = Num real | PInf | NInf | NaN

fun isNaN :: "number \<Rightarrow> bool" where
  "isNaN NaN = True"
| "isNaN _ = False"

fun num_neg :: "number \<Rightarrow> number" where
  "num_neg (Num a) = Num (- a)"
| "num_neg PInf = NInf"
| "num_neg NInf = PInf"
| "num_neg NaN = NaN"

fun num_add :: "number \<Rightarrow> number \<Rightarrow> number" where
  "num_add (Num a) (Num b) = Num (a + b)"
| "num_add NaN _ = NaN"
| "num_add _ NaN = NaN"
| "num_add PInf NInf = NaN"
| "num_add NInf PInf = NaN"
| "num_add PInf _ = PInf"
| "num_add NInf _ = NInf"
| "num_add _ PInf = PInf"
| "num_add _ NInf = NInf"

definition num_sub :: "number \<Rightarrow> number \<Rightarrow> number" where
  "num_sub a b = num_add a (num_neg b)"

text \<open>The sign of a number that is not NaN: \<open>-1\<close>, \<open>0\<close> or \<open>1\<close>.\<close>

fun num_sign :: "number \<Rightarrow> int" where
  "num_sign (Num a) = (if a < 0 then - 1 else if a = 0 then 0 else 1)"
| "num_sign PInf = 1"
| "num_sign NInf = - 1"
| "num_sign NaN = 0"

definition signed_inf :: "int \<Rightarrow> number" where
  "signed_inf sg = (if sg < 0 then NInf else if sg = 0 then NaN else PInf)"

fun num_mul :: "number \<Rightarrow> number \<Rightarrow> number" where
  "num_mul (Num a) (Num b) = Num (a * b)"
| "num_mul NaN _ = NaN"
| "num_mul _ NaN = NaN"
| "num_mul a b = signed_inf (num_sign a * num_sign b)"

fun num_div :: "number \<Rightarrow> number \<Rightarrow> number" where
  "num_div (Num a) (Num b) = (if b = 0 then signed_inf (num_sign (Num a)) else Num (a / b))"
| "num_div NaN _ = NaN"
| "num_div _ NaN = NaN"
| "num_div (Num a) b = Num 0"
| "num_div a (Num b) = signed_inf (num_sign a * (if b < 0 then - 1 else 1))"
| "num_div a b = NaN"

fun num_abs :: "number \<Rightarrow> number" where
  "num_abs (Num a) = Num \<bar>a\<bar>"
| "num_abs NaN = NaN"
| "num_abs _ = PInf"

fun num_lt :: "number \<Rightarrow> number \<Rightarrow> bool" where
  "num_lt (Num a) (Num b) = (a < b)"
| "num_lt NaN _ = False"
| "num_lt _ NaN = False"
| "num_lt NInf b = (b \<noteq> NInf)"
| "num_lt a PInf = (a \<noteq> PInf)"
| "num_lt _ _ = False"

text \<open>\<^verbatim>\<open>Math.sqrt\<close>: NaN below zero.\<close>

fun js_sqrt :: "number \<Rightarrow> number" where
  "js_sqrt (Num a) = (if a < 0 then NaN else Num (sqrt a))"
| "js_sqrt PInf = PInf"
| "js_sqrt _ = NaN"

text \<open>\<^verbatim>\<open>Number.MAX_VALUE\<close> and \<^verbatim>\<open>Number.MIN_VALUE\<close> of IEEE doubles: the largest
  finite double and the smallest \<^emph>\<open>positive\<close> double.\<close>

definition MAX_VALUE :: real where
  "MAX_VALUE = (2 ^ 53 - 1) * 2 ^ 971"

definition MIN_VALUE :: real where
  "MIN_VALUE = 1 / 2 ^ 1074"

subsection \<open>Arrays and the store\<close>

type_synonym ref = nat

text \<open>The store of number arrays: the array at address \<open>a\<close> is \<open>h ! a\<close>; allocation
  appends, so the next fresh address is \<open>length h\<close>.\<close>

type_synonym heap = "real list list"

definition valid_ref :: "heap \<Rightarrow> ref \<Rightarrow> bool" where
  "valid_ref h a = (a < length h)"

definition alloc :: "heap \<Rightarrow> real list \<Rightarrow> heap \<times> ref" where
  "alloc h xs = (h @ [xs], length h)"

text \<open>\<^verbatim>\<open>a.slice()\<close>: a new array with the same elements.\<close>

definition slice :: "heap \<Rightarrow> ref \<Rightarrow> heap \<times> ref" where
  "slice h a = alloc h (h ! a)"

text \<open>Reading \<^verbatim>\<open>a[i]\<close> as a number: \<^verbatim>\<open>undefined\<close> (NaN in arithmetic) out of range.\<close>

definition nth_num :: "real list \<Rightarrow> nat \<Rightarrow> number" where
  "nth_num xs i = (if i < length xs then Num (xs ! i) else NaN)"

text \<open>An array of numbers with holes, as \<^verbatim>\<open>new Array(0)\<close> followed by indexed writes
  builds it: \<open>None\<close> is a hole, which reads as \<^verbatim>\<open>undefined\<close>.\<close>

type_synonym sparse = "number option list"

definition sparse_get :: "sparse \<Rightarrow> nat \<Rightarrow> number" where
  "sparse_get f i = (if i < length f then (case f ! i of None \<Rightarrow> NaN | Some v \<Rightarrow> v) else NaN)"

definition sparse_set :: "sparse \<Rightarrow> nat \<Rightarrow> number \<Rightarrow> sparse" where
  "sparse_set f i v =
     (if i < length f then f[i := Some v]
      else f @ replicate (i - length f) None @ [Some v])"

definition sparse_push :: "sparse \<Rightarrow> number \<Rightarrow> sparse" where
  "sparse_push f v = f @ [Some v]"

subsection \<open>The engine state\<close>

record engine =
  p_data :: ref
  p_mean :: real
  p_std :: number
  p_median :: real
  p_mode :: real
  p_min :: real
  p_max :: real
  p_minInvalidated :: bool
  p_maxInvalidated :: bool
  p_meanInvalidated :: bool
  p_stdInvalidated :: bool
  p_medianInvalidated :: bool
  p_modeInvalidated :: bool

text \<open>The constructor allocates the empty array and invalidates every cache.\<close>

definition constructor :: "heap \<Rightarrow> heap \<times> engine" where
  "constructor h =
     (let (h', a) = alloc h [] in
      (h', \<lparr> p_data = a, p_mean = 0, p_std = Num 0, p_median = 0, p_mode = 0,
             p_min = 0, p_max = 0,
             p_minInvalidated = True, p_maxInvalidated = True, p_meanInvalidated = True,
             p_stdInvalidated = True, p_medianInvalidated = True,
             p_modeInvalidated = True \<rparr>))"

definition isEven :: "nat \<Rightarrow> bool" where
  "isEven n = (n mod 2 = 0)"

text \<open>The setter \<^verbatim>\<open>set data(dataProvider)\<close>: \<open>None\<close> is \<^verbatim>\<open>undefined\<close> or \<^verbatim>\<open>null\<close>.\<close>

definition set_data :: "heap \<Rightarrow> engine \<Rightarrow> ref option \<Rightarrow> heap \<times> engine" where
  "set_data h s dataProvider =
     (case dataProvider of
        None \<Rightarrow> (h, s)
      | Some a \<Rightarrow>
          if length (h ! a) = 0 then (h, s)
          else
            (let (h', c) = slice h a in
             (h', s\<lparr> p_data := c,
                     p_minInvalidated := True, p_maxInvalidated := True,
                     p_meanInvalidated := True, p_stdInvalidated := True,
                     p_medianInvalidated := True, p_modeInvalidated := True \<rparr>)))"

definition stored :: "heap \<Rightarrow> engine \<Rightarrow> real list" where
  "stored h s = h ! p_data s"

definition samples :: "heap \<Rightarrow> engine \<Rightarrow> nat" where
  "samples h s = length (stored h s)"


subsection \<open>Minimum, maximum, five-number summary\<close>

text \<open>\<^verbatim>\<open>for (i = 0; i < n; ++i) if (this._data[i] < min) min = this._data[i]\<close>\<close>

fun min_loop :: "real list \<Rightarrow> real \<Rightarrow> real" where
  "min_loop [] m = m"
| "min_loop (x # xs) m = min_loop xs (if x < m then x else m)"

fun max_loop :: "real list \<Rightarrow> real \<Rightarrow> real" where
  "max_loop [] m = m"
| "max_loop (x # xs) m = max_loop xs (if x > m then x else m)"

text \<open>Neither getter ever writes its invalidation flag.\<close>

definition min_ds :: "heap \<Rightarrow> engine \<Rightarrow> real \<times> engine" where
  "min_ds h s =
     (let n = length (stored h s) in
      if n = 0 then (0, s)
      else if p_minInvalidated s then
        (let s' = s\<lparr> p_min := min_loop (stored h s) MAX_VALUE \<rparr> in (p_min s', s'))
      else (p_min s, s))"

definition max_ds :: "heap \<Rightarrow> engine \<Rightarrow> real \<times> engine" where
  "max_ds h s =
     (let n = length (stored h s) in
      if n = 0 then (0, s)
      else if p_maxInvalidated s then
        (let s' = s\<lparr> p_max := max_loop (stored h s) MIN_VALUE \<rparr> in (p_max s', s'))
      else (p_max s, s))"

text \<open>The median rule the source writes out three times, on an array already sorted:
  the mean of the two middle elements for an even length, the middle element otherwise.\<close>

definition median_sorted :: "real list \<Rightarrow> real" where
  "median_sorted d =
     (let n = length d in
      if isEven n then (let m = n div 2 - 1 in 0.5 * (d ! m + d ! (m + 1)))
      else (let m = (n + 1) div 2 - 1 in d ! m))"

definition fiveNumbers :: "heap \<Rightarrow> engine \<Rightarrow> real list" where
  "fiveNumbers h s =
     (let n = length (stored h s) in
      if n = 0 then []
      else if n = 1 then (let x = stored h s ! 0 in [x, x, x, x, x])
      else
        (let d = sort (stored h s);
             dataMin = d ! 0;
             dataMax = d ! (n - 1);
             (dataMed, lower, upper) =
               (if isEven n then
                  (let m = n div 2 - 1 in
                   (0.5 * (d ! m + d ! (m + 1)), take (m + 1) d, drop (m + 1) d))
                else
                  (let m = (n + 1) div 2 - 1; med = d ! m in
                   (med, take m d @ [med], med # drop (m + 1) d)));
             lowerQuartile = median_sorted lower;
             upperQuartile = median_sorted upper
         in [dataMin, lowerQuartile, dataMed, upperQuartile, dataMax]))"

subsection \<open>Quantiles\<close>

text \<open>\<^verbatim>\<open>isNaN(_p) || _p < 0.01 || _p > 0.99 ? 0.25 : _p\<close>; an absent argument is NaN.\<close>

definition quantile_p :: "number \<Rightarrow> real" where
  "quantile_p p0 =
     (if isNaN p0 \<or> num_lt p0 (Num 0.01) \<or> num_lt (Num 0.99) p0 then 0.25
      else (case p0 of Num r \<Rightarrow> r | _ \<Rightarrow> 0.25))"

text \<open>\<^verbatim>\<open>for (i = 1; i < n-1; ++i) f[i] = f[i-1] + n1\<close>\<close>

function f_loop :: "nat \<Rightarrow> nat \<Rightarrow> real \<Rightarrow> sparse \<Rightarrow> sparse" where
  "f_loop i n n1 f =
     (if i + 1 < n then
        f_loop (i + 1) n n1 (sparse_set f i (num_add (sparse_get f (i - 1)) (Num n1)))
      else f)"
  by pat_completeness auto
termination
  by (relation "measure (\<lambda>(i, n, n1, f). n - i)") auto

text \<open>The main loop; \<open>i\<close> counts the levels done, \<open>q\<close> is the running level.\<close>

function quantile_loop ::
  "nat \<Rightarrow> int \<Rightarrow> real \<Rightarrow> real \<Rightarrow> real \<Rightarrow> sparse \<Rightarrow> real list \<Rightarrow> number list \<Rightarrow> number list" where
  "quantile_loop i nQuant p n1 q f d quantiles =
     (if int i < nQuant - 1 then
        (let q' = q + p;
             r = nat \<lfloor>q' * n1\<rfloor>
         in if num_lt (num_abs (num_sub (sparse_get f r) (Num q'))) (Num 0.001) then
              quantile_loop (i + 1) nQuant p n1 q' f d (quantiles @ [nth_num d r])
            else
              (let t = num_div (num_sub (Num q') (sparse_get f r))
                               (num_sub (sparse_get f (r + 1)) (sparse_get f r));
                   interp = num_add (num_mul (num_sub (Num 1) t) (nth_num d r))
                                    (num_mul t (nth_num d (r + 1)))
               in quantile_loop (i + 1) nQuant p n1 q' f d (quantiles @ [interp])))
      else quantiles)"
  by pat_completeness auto
termination
  by (relation "measure (\<lambda>(i, nQuant, p, n1, q, f, d, qs). nat (nQuant - 1 - int i))") auto

text \<open>\<^verbatim>\<open>new Array<number>(0.0)\<close> is the array of length zero: it has no element \<open>0\<close>.\<close>

definition getQuantile :: "heap \<Rightarrow> engine \<Rightarrow> number \<Rightarrow> number list" where
  "getQuantile h s p0 =
     (let p = quantile_p p0;
          n = length (stored h s);
          nQuant = \<lfloor>1 / p\<rfloor>
      in if n < 2 then []
         else
           (let f0 = ([] :: sparse);
                n1 = 1 / (real n - 1);
                f1 = f_loop 1 n n1 f0;
                f = sparse_push f1 (Num 1);
                d = sort (stored h s);
                quantiles = [nth_num d 0];
                quantiles' = quantile_loop 0 nQuant p (real n - 1) 0 f d quantiles
            in quantiles' @ [nth_num d (length d - 1)]))"


subsection \<open>Mean, standard deviation, median\<close>

text \<open>\<^verbatim>\<open>for (i = 1; i < n; ++i) s += this._data[i]\<close>, started at \<^verbatim>\<open>this._data[0]\<close>.\<close>

fun sum_loop :: "real list \<Rightarrow> real \<Rightarrow> real" where
  "sum_loop [] s = s"
| "sum_loop (x # xs) s = sum_loop xs (s + x)"

definition mean :: "heap \<Rightarrow> engine \<Rightarrow> real \<times> engine" where
  "mean h s =
     (if p_meanInvalidated s then
        (case stored h s of
           [] \<Rightarrow> (0, s)
         | x # rest \<Rightarrow>
             (let n = length (stored h s);
                  s' = s\<lparr> p_mean := sum_loop rest x / real n, p_meanInvalidated := False \<rparr>
              in (p_mean s', s')))
      else (p_mean s, s))"

text \<open>Welford's loop: \<open>i\<close> is the index of the element at the head of the list.\<close>

fun welford_loop :: "real list \<Rightarrow> nat \<Rightarrow> real \<Rightarrow> real \<Rightarrow> real" where
  "welford_loop [] i m s = s"
| "welford_loop (x # xs) i m s =
     (let m_old = m;
          d = x - m_old;
          m' = m + d / real (i + 1);
          s' = s + (x - m') * d
      in welford_loop xs (i + 1) m' s')"

definition std :: "heap \<Rightarrow> engine \<Rightarrow> number \<times> engine" where
  "std h s =
     (if p_stdInvalidated s then
        (let n = length (stored h s) in
         if n = 1 then (Num 0, s)
         else
           (let sq = welford_loop (stored h s) 0 0 0;
                s' = s\<lparr> p_std := js_sqrt (Num (sq / (real n - 1))),
                        p_stdInvalidated := False \<rparr>
            in (p_std s', s')))
      else (p_std s, s))"

definition cv :: "heap \<Rightarrow> engine \<Rightarrow> number \<times> engine" where
  "cv h s =
     (let (sd, s1) = std h s;
          (m, s2) = mean h s1
      in (num_mul (num_div sd (Num m)) (Num 100), s2))"

definition median :: "heap \<Rightarrow> engine \<Rightarrow> real \<times> engine" where
  "median h s =
     (if p_medianInvalidated s then
        (let n = length (stored h s) in
         if n = 0 then (0, s)
         else
           (let tmp = sort (stored h s);
                med = (if isEven n then (let m = n div 2 - 1 in 0.5 * (tmp ! m + tmp ! (m + 1)))
                       else (let m = (n + 1) div 2 - 1 in tmp ! m));
                s' = s\<lparr> p_median := med, p_medianInvalidated := False \<rparr>
            in (p_median s', s')))
      else (p_median s, s))"

subsection \<open>Mode\<close>

text \<open>
  The count table \<^verbatim>\<open>hash\<close> is an object whose property names are the strings
  \<^verbatim>\<open>this._data[i].toString()\<close>. \<^verbatim>\<open>toString\<close> maps different finite numbers to different
  strings, so the table is modelled with the number itself as key, in insertion order.
\<close>

type_synonym hash = "(real \<times> int) list"

definition hasOwnProperty :: "hash \<Rightarrow> real \<Rightarrow> bool" where
  "hasOwnProperty hash x = (x \<in> set (map fst hash))"

fun hash_get :: "hash \<Rightarrow> real \<Rightarrow> int" where
  "hash_get [] x = 0"
| "hash_get ((k, c) # rest) x = (if k = x then c else hash_get rest x)"

fun hash_incr :: "hash \<Rightarrow> real \<Rightarrow> hash" where
  "hash_incr [] x = []"
| "hash_incr ((k, c) # rest) x = (if k = x then (k, c + 1) # rest else (k, c) # hash_incr rest x)"

text \<open>\<^verbatim>\<open>if (hash.hasOwnProperty(x)) hash[x]++; else hash[x] = 1\<close>, for every element.\<close>

fun count_loop :: "real list \<Rightarrow> hash \<Rightarrow> hash" where
  "count_loop [] hash = hash"
| "count_loop (x # xs) hash =
     count_loop xs (if hasOwnProperty hash x then hash_incr hash x else hash @ [(x, 1)])"

text \<open>
  \<^verbatim>\<open>for (value in hash)\<close> visits the property names that are array indices (the canonical
  decimal strings of the integers \<open>0 .. 2^32 - 2\<close>) first, in ascending numeric order, and
  then the other names in the order of their creation.
\<close>

definition is_array_index :: "real \<Rightarrow> bool" where
  "is_array_index x = (x = of_int \<lfloor>x\<rfloor> \<and> 0 \<le> x \<and> x \<le> 4294967294)"

definition for_in_keys :: "hash \<Rightarrow> real list" where
  "for_in_keys hash =
     sort (filter is_array_index (map fst hash)) @
     filter (\<lambda>k. \<not> is_array_index k) (map fst hash)"

text \<open>
  \<^verbatim>\<open>parseInt(value)\<close> on the string of a number. \<^verbatim>\<open>toString\<close> writes a number of
  magnitude in \<open>[1e-6, 1e21)\<close> (and zero) in plain decimal notation, of which \<^verbatim>\<open>parseInt\<close>
  reads the integer part; any other number is written with an exponent,
  \<^verbatim>\<open>d.ddde+k\<close>, of which \<^verbatim>\<open>parseInt\<close> reads the sign and the leading digit.
\<close>

definition plain_decimal :: "real \<Rightarrow> bool" where
  "plain_decimal x = (x = 0 \<or> (1 / 10 ^ 6 \<le> \<bar>x\<bar> \<and> \<bar>x\<bar> < 10 ^ 21))"

definition parseInt_toString :: "real \<Rightarrow> real" where
  "parseInt_toString x =
     (if plain_decimal x then of_int (if x < 0 then \<lceil>x\<rceil> else \<lfloor>x\<rfloor>)
      else (if x < 0 then - 1 else 1) *
           of_int \<lfloor>\<bar>x\<bar> / 10 powr of_int \<lfloor>log 10 \<bar>x\<bar>\<rfloor>\<rfloor>)"

text \<open>The selection loop; \<open>md\<close> is the field \<^verbatim>\<open>this._mode\<close>, which the loop writes.\<close>

fun mode_loop :: "real list \<Rightarrow> hash \<Rightarrow> int \<Rightarrow> real \<Rightarrow> real" where
  "mode_loop [] hash count md = md"
| "mode_loop (v # rest) hash count md =
     (if hash_get hash v > count then mode_loop rest hash (hash_get hash v) (parseInt_toString v)
      else mode_loop rest hash count md)"

definition mode :: "heap \<Rightarrow> engine \<Rightarrow> real \<times> engine" where
  "mode h s =
     (if p_modeInvalidated s then
        (let n = length (stored h s) in
         if n = 0 then (0, s)
         else
           (let hash = count_loop (stored h s) [];
                s' = s\<lparr> p_mode := mode_loop (for_in_keys hash) hash (- 1) (p_mode s),
                        p_modeInvalidated := False \<rparr>
            in (p_mode s', s')))
      else (p_mode s, s))"


subsection \<open>Confidence interval, skewness, kurtosis\<close>

record IConfidence =
  left :: number
  right :: number

text \<open>\<^verbatim>\<open>t = isNaN(_t) ? 0.9 : _t; t = Math.max(0.01,t); t = Math.min(t, 0.99)\<close>\<close>

definition confidence_t :: "number \<Rightarrow> real" where
  "confidence_t t0 =
     (case (if isNaN t0 then Num 0.9 else t0) of
        Num r \<Rightarrow> min (max 0.01 r) 0.99
      | PInf \<Rightarrow> 0.99
      | NInf \<Rightarrow> 0.01
      | NaN \<Rightarrow> 0.9)"

definition getConfidenceInterval :: "heap \<Rightarrow> engine \<Rightarrow> number \<Rightarrow> IConfidence \<times> engine" where
  "getConfidenceInterval h s t0 =
     (let t = confidence_t t0 in
      if length (stored h s) = 0 then (\<lparr> left = Num 0, right = Num 0 \<rparr>, s)
      else
        (let n = length (stored h s);
             (sd, s1) = std h s;
             (u, s2) = mean h s1;
             d = num_div (num_mul (Num t) sd) (js_sqrt (Num (real n)))
         in (\<lparr> left = num_sub (Num u) d, right = num_add (Num u) d \<rparr>, s2)))"

text \<open>\<^verbatim>\<open>z = this._data[i] - u; s1 += z*z*z\<close> and \<^verbatim>\<open>s1 += z*z*z*z\<close>\<close>

fun cube_loop :: "real list \<Rightarrow> real \<Rightarrow> real \<Rightarrow> real" where
  "cube_loop [] u s1 = s1"
| "cube_loop (x # xs) u s1 = (let z = x - u in cube_loop xs u (s1 + z * z * z))"

fun quart_loop :: "real list \<Rightarrow> real \<Rightarrow> real \<Rightarrow> real" where
  "quart_loop [] u s1 = s1"
| "quart_loop (x # xs) u s1 = (let z = x - u in quart_loop xs u (s1 + z * z * z * z))"

definition skewness :: "heap \<Rightarrow> engine \<Rightarrow> number \<times> engine" where
  "skewness h s =
     (let n = length (stored h s) in
      if n < 3 then (Num 0, s)
      else
        (let mult = num_div (js_sqrt (Num (real n * (real n - 1)))) (Num (real n - 2));
             (u, sa) = mean h s;
             (sd, sb) = std h sa;
             s1 = cube_loop (stored h sb) u 0;
             skew = num_div (Num (s1 / real n)) (num_mul (num_mul sd sd) sd)
         in (num_mul mult skew, sb)))"

definition kurtosis :: "heap \<Rightarrow> engine \<Rightarrow> number \<times> engine" where
  "kurtosis h s =
     (let n = length (stored h s) in
      if n < 4 then (Num 0, s)
      else
        (let (u, sa) = mean h s;
             (sd, sb) = std h sa;
             s1 = quart_loop (stored h sb) u 0;
             n1 = real n - 1;
             n2 = real n - 2;
             n3 = real n - 3;
             a = num_div (Num (real n * (real n + 1) * s1))
                   (num_mul (num_mul (num_mul (num_mul (Num (n1 * n2 * n3)) sd) sd) sd) sd);
             b = 3 * n1 * n1 / (n2 * n3)
         in (num_sub a (Num b), sb)))"

subsection \<open>Covariance and correlation\<close>

text \<open>\<^verbatim>\<open>xs = x[i] - xmean; ys = y[i] - ymean; s += xs*ys\<close>, for \<open>i\<close> below the common length.\<close>

fun cov_loop :: "real list \<Rightarrow> real list \<Rightarrow> real \<Rightarrow> real \<Rightarrow> real \<Rightarrow> real" where
  "cov_loop (a # as) (b # bs) xmean ymean s =
     cov_loop as bs xmean ymean (s + (a - xmean) * (b - ymean))"
| "cov_loop _ _ xmean ymean s = s"

definition covariance ::
  "heap \<Rightarrow> engine \<Rightarrow> ref option \<Rightarrow> ref option \<Rightarrow> real \<times> heap \<times> engine" where
  "covariance h s x y =
     (case (x, y) of
        (Some a, Some b) \<Rightarrow>
          (let n = length (h ! a) in
           if n < 2 \<or> n \<noteq> length (h ! b) then (0, h, s)
           else
             (let (h1, t1) = slice h a;
                  (h2, s1) = set_data h1 s (Some t1);
                  (xmean, s2) = mean h2 s1;
                  (h3, t2) = slice h2 b;
                  (h4, s3) = set_data h3 s2 (Some t2);
                  (ymean, s4) = mean h4 s3
              in (cov_loop (h4 ! a) (h4 ! b) xmean ymean 0 / (real n - 1), h4, s4)))
      | _ \<Rightarrow> (0, h, s))"

definition correlation ::
  "heap \<Rightarrow> engine \<Rightarrow> ref option \<Rightarrow> ref option \<Rightarrow> number \<times> heap \<times> engine" where
  "correlation h s x y =
     (case (x, y) of
        (Some a, Some b) \<Rightarrow>
          (let n = length (h ! a) in
           if n < 2 \<or> n \<noteq> length (h ! b) then (Num 0, h, s)
           else
             (let (h1, s1) = set_data h s (Some a);
                  (xs, s2) = std h1 s1;
                  (h2, s3) = set_data h1 s2 (Some b);
                  (ys, s4) = std h2 s3;
                  (c, h3, s5) = covariance h2 s4 (Some a) (Some b)
              in (num_div (Num c) (num_mul xs ys), h3, s5)))
      | _ \<Rightarrow> (Num 0, h, s))"

subsection \<open>Sessions: a caller driving one engine\<close>

text \<open>
  The calls that can write the engine state. An array argument is given by its contents
  (\<open>None\<close>: \<^verbatim>\<open>null\<close> or \<^verbatim>\<open>undefined\<close>); the caller's array is put in the store and its
  address passed. The remaining members (\<^verbatim>\<open>samples\<close>, \<^verbatim>\<open>fiveNumbers\<close>, \<^verbatim>\<open>fences\<close>,
  \<^verbatim>\<open>getQuantile\<close>, \<^verbatim>\<open>geometricMean\<close>, \<^verbatim>\<open>harmonicMean\<close>, \<^verbatim>\<open>covarianceMatrix\<close>) write no
  field.
\<close>

datatype call =
    C_assign "real list option"
  | C_min | C_max | C_mean | C_std | C_cv | C_median | C_mode
  | C_skewness | C_kurtosis
  | C_getConfidenceInterval number
  | C_covariance "real list option" "real list option"
  | C_correlation "real list option" "real list option"

fun pass :: "heap \<Rightarrow> real list option \<Rightarrow> heap \<times> ref option" where
  "pass h None = (h, None)"
| "pass h (Some xs) = (let (h', a) = alloc h xs in (h', Some a))"

fun exec :: "heap \<Rightarrow> engine \<Rightarrow> call \<Rightarrow> heap \<times> engine" where
  "exec h s (C_assign x) = (let (h1, r) = pass h x in set_data h1 s r)"
| "exec h s C_min = (h, snd (min_ds h s))"
| "exec h s C_max = (h, snd (max_ds h s))"
| "exec h s C_mean = (h, snd (mean h s))"
| "exec h s C_std = (h, snd (std h s))"
| "exec h s C_cv = (h, snd (cv h s))"
| "exec h s C_median = (h, snd (median h s))"
| "exec h s C_mode = (h, snd (mode h s))"
| "exec h s C_skewness = (h, snd (skewness h s))"
| "exec h s C_kurtosis = (h, snd (kurtosis h s))"
| "exec h s (C_getConfidenceInterval t) = (h, snd (getConfidenceInterval h s t))"
| "exec h s (C_covariance x y) =
     (let (h1, rx) = pass h x; (h2, ry) = pass h1 y in snd (covariance h2 s rx ry))"
| "exec h s (C_correlation x y) =
     (let (h1, rx) = pass h x; (h2, ry) = pass h1 y in snd (correlation h2 s rx ry))"

fun run :: "heap \<Rightarrow> engine \<Rightarrow> call list \<Rightarrow> heap \<times> engine" where
  "run h s [] = (h, s)"
| "run h s (c # cs) = (case exec h s c of (h', s') \<Rightarrow> run h' s' cs)"

text \<open>A session: \<^verbatim>\<open>new TSMT$DataStats()\<close> followed by the calls.\<close>

definition session :: "call list \<Rightarrow> heap \<times> engine" where
  "session cs = (case constructor [] of (h, s) \<Rightarrow> run h s cs)"


subsection \<open>Reference notions used to state the properties\<close>

text \<open>The arithmetic mean of a list.\<close>

definition arith_mean :: "real list \<Rightarrow> real" where
  "arith_mean xs = sum_list xs / real (length xs)"

text \<open>An array argument is absent or an address in use.\<close>

definition valid_arg :: "heap \<Rightarrow> ref option \<Rightarrow> bool" where
  "valid_arg h x = (case x of None \<Rightarrow> True | Some a \<Rightarrow> valid_ref h a)"

text \<open>The engine a fresh session reaches by assigning \<open>xs\<close> once.\<close>

definition loaded :: "real list \<Rightarrow> heap \<times> engine" where
  "loaded xs = session [C_assign (Some xs)]"

text \<open>
  The quantile at level \<open>q\<close> as the specification words it, on the sorted sample \<open>d\<close>
  of size \<open>n\<close>: the CDF positions are \<open>f[i] = i / (n - 1)\<close> (\<open>f[0] = 0\<close>, each interior
  position its predecessor plus \<open>1 / (n - 1)\<close>, \<open>f[n - 1] = 1\<close>), \<open>r = floor (q (n - 1))\<close>,
  and the result is \<open>d[r]\<close> when \<open>|f[r] - q| < 0.001\<close> and the linear interpolation
  between \<open>d[r]\<close> and \<open>d[r + 1]\<close> otherwise.
\<close>

definition f_spec :: "nat \<Rightarrow> nat \<Rightarrow> real" where
  "f_spec n i = (if i + 1 = n then 1 else real i * (1 / (real n - 1)))"

definition quantile_level_spec :: "real list \<Rightarrow> real \<Rightarrow> real" where
  "quantile_level_spec d q =
     (let n = length d;
          r = nat \<lfloor>q * (real n - 1)\<rfloor>
      in if \<bar>f_spec n r - q\<bar> < 0.001 then d ! r
         else (let t = (q - f_spec n r) / (f_spec n (r + 1) - f_spec n r)
               in (1 - t) * d ! r + t * d ! (r + 1)))"

text \<open>
  Welford's recurrence as the specification words it: from \<open>m = 0\<close>, \<open>s = 0\<close>, element
  \<open>i\<close> (0-indexed) gives \<open>d = x\<^sub>i - m_prev\<close>, \<open>m = m_prev + d / (i + 1)\<close> and
  \<open>s = s + (x\<^sub>i - m) d\<close>. \<open>welford_spec xs k\<close> is the pair \<open>(m, s)\<close> after \<open>k\<close> elements.
\<close>

primrec welford_spec :: "real list \<Rightarrow> nat \<Rightarrow> real \<times> real" where
  "welford_spec xs 0 = (0, 0)"
| "welford_spec xs (Suc i) =
     (let (m_prev, s_prev) = welford_spec xs i;
          d = xs ! i - m_prev;
          m = m_prev + d / real (i + 1);
          s = s_prev + (xs ! i - m) * d
      in (m, s))"

text \<open>What the getters \<open>std\<close> and \<open>mode\<close> compute from a sample when they recompute.\<close>

definition std_value :: "real list \<Rightarrow> number" where
  "std_value xs = js_sqrt (Num (welford_loop xs 0 0 0 / (real (length xs) - 1)))"

definition mode_value :: "real list \<Rightarrow> real" where
  "mode_value xs = (let hash = count_loop xs [] in mode_loop (for_in_keys hash) hash (- 1) 0)"

text \<open>The cache invariant: the engine's array is in the store, and a cache whose flag
  is false holds the statistic of the stored sample.\<close>

definition coherent :: "heap \<Rightarrow> engine \<Rightarrow> bool" where
  "coherent h s =
     (valid_ref h (p_data s) \<and>
      (\<not> p_meanInvalidated s \<longrightarrow> stored h s \<noteq> [] \<and> p_mean s = arith_mean (stored h s)) \<and>
      (\<not> p_stdInvalidated s \<longrightarrow> length (stored h s) \<noteq> 1 \<and> p_std s = std_value (stored h s)) \<and>
      (\<not> p_medianInvalidated s \<longrightarrow>
         stored h s \<noteq> [] \<and> p_median s = median_sorted (sort (stored h s))) \<and>
      (\<not> p_modeInvalidated s \<longrightarrow> stored h s \<noteq> [] \<and> p_mode s = mode_value (stored h s)))"

text \<open>The position of the first occurrence of a value in the sample.\<close>

definition first_index :: "real list \<Rightarrow> real \<Rightarrow> nat" where
  "first_index xs a = length (takeWhile (\<lambda>z. z \<noteq> a) xs)"

text \<open>An integer of magnitude below \<open>1e21\<close>: \<^verbatim>\<open>toString\<close> writes it as its decimal
  digits, which \<^verbatim>\<open>parseInt\<close> reads back.\<close>

definition plain_integer :: "real \<Rightarrow> bool" where
  "plain_integer x = (x = of_int \<lfloor>x\<rfloor> \<and> \<bar>x\<bar> < 10 ^ 21)"

text \<open>The order in which \<^verbatim>\<open>for (value in hash)\<close> visits two keys of the count table of
  the sample \<open>xs\<close>.\<close>

definition for_in_before :: "real list \<Rightarrow> real \<Rightarrow> real \<Rightarrow> bool" where
  "for_in_before xs a b =
     (if is_array_index a then (if is_array_index b then a \<le> b else True)
      else (if is_array_index b then False else first_index xs a < first_index xs b))"

text \<open>
  The mode as the specification words it: the value of maximal count and, among those,
  the one whose first occurrence in the sample is earliest; 0 for the empty sample.
\<close>

definition mode_spec :: "real list \<Rightarrow> real" where
  "mode_spec xs =
     (case filter (\<lambda>x. list_all (\<lambda>y. count_list xs y \<le> count_list xs x) xs) xs of
        [] \<Rightarrow> 0
      | x # _ \<Rightarrow> x)"

text \<open>The calls that make a successful assignment: a non-empty array assigned, or
  covariance or correlation called with valid inputs.\<close>

fun assigns :: "call \<Rightarrow> bool" where
  "assigns (C_assign (Some xs)) = (xs \<noteq> [])"
| "assigns (C_covariance (Some xs) (Some ys)) = (2 \<le> length xs \<and> length xs = length ys)"
| "assigns (C_correlation (Some xs) (Some ys)) = (2 \<le> length xs \<and> length xs = length ys)"
| "assigns _ = False"

text \<open>From \<open>s\<close> to \<open>s'\<close> no flag of mean, standard deviation, median or mode went from
  false to true.\<close>

definition flags_kept :: "engine \<Rightarrow> engine \<Rightarrow> bool" where
  "flags_kept s s' =
     ((p_meanInvalidated s' \<longrightarrow> p_meanInvalidated s) \<and>
      (p_stdInvalidated s' \<longrightarrow> p_stdInvalidated s) \<and>
      (p_medianInvalidated s' \<longrightarrow> p_medianInvalidated s) \<and>
      (p_modeInvalidated s' \<longrightarrow> p_modeInvalidated s))"

text \<open>The position array \<^verbatim>\<open>f\<close> as \<open>getQuantile\<close> builds it for \<open>n \<ge> 2\<close> samples.\<close>

definition f_built :: "nat \<Rightarrow> sparse" where
  "f_built n =
     (if n = 2 then [Some (Num 1)]
      else None # replicate (n - 2) (Some NaN) @ [Some (Num 1)])"

text \<open>The flags of \<open>min\<close> and \<open>max\<close> are both true.\<close>

definition scans_invalidated :: "engine \<Rightarrow> bool" where
  "scans_invalidated s = (p_minInvalidated s \<and> p_maxInvalidated s)"

section \<open>Properties\<close>

subsection \<open>The store and the setter\<close>

lemma set_data_None: "set_data h s None = (h, s)"
  by (simp add: set_data_def)

lemma set_data_empty: "h ! a = [] \<Longrightarrow> set_data h s (Some a) = (h, s)"
  by (simp add: set_data_def)

lemma set_data_Some:
  "h ! a \<noteq> [] \<Longrightarrow>
   set_data h s (Some a) =
     (h @ [h ! a],
      s\<lparr> p_data := length h,
         p_minInvalidated := True, p_maxInvalidated := True,
         p_meanInvalidated := True, p_stdInvalidated := True,
         p_medianInvalidated := True, p_modeInvalidated := True \<rparr>)"
  by (simp add: set_data_def slice_def alloc_def)

text \<open>
  Claim C2. An assignment of an absent, null or empty array changes nothing, so the
  sample count is what it was. Any other assignment stores a copy: the sample count is
  the length of the input, the stored array has the input's elements and lives at an
  address that was not in use before (in particular not the input's), the arrays
  already in the store are untouched, and whatever the caller writes into the input
  array afterwards, the stored sample and its count stay the same.
\<close>

theorem assignment_sample_count:
  "(dataProvider = None \<or> (\<exists>a. dataProvider = Some a \<and> h ! a = []) \<longrightarrow>
      set_data h s dataProvider = (h, s) \<and>
      samples (fst (set_data h s dataProvider)) (snd (set_data h s dataProvider)) = samples h s)
   \<and>
   (\<forall>a. dataProvider = Some a \<and> valid_ref h a \<and> h ! a \<noteq> [] \<longrightarrow>
      (case set_data h s dataProvider of
         (h', s') \<Rightarrow>
           samples h' s' = length (h ! a) \<and>
           stored h' s' = h ! a \<and>
           p_data s' \<noteq> a \<and>
           \<not> valid_ref h (p_data s') \<and>
           (\<forall>b. valid_ref h b \<longrightarrow> h' ! b = h ! b) \<and>
           (\<forall>ys. stored (h'[a := ys]) s' = h ! a \<and>
                 samples (h'[a := ys]) s' = length (h ! a))))"
  by (auto simp: set_data_None set_data_empty set_data_Some samples_def stored_def
      valid_ref_def nth_append)

theorem assignment_sample_count_witness:
  "valid_ref [[4, 5, 6], [], []] 0 \<and> [[4, 5, 6], [], []] ! 0 \<noteq> [] \<and>
   [[4, 5, 6], [], []] ! 1 = [] \<and>
   set_data [[4, 5, 6], [], []] (snd (constructor [[4, 5, 6], []])) None =
     ([[4, 5, 6], [], []], snd (constructor [[4, 5, 6], []])) \<and>
   set_data [[4, 5, 6], [], []] (snd (constructor [[4, 5, 6], []])) (Some 1) =
     ([[4, 5, 6], [], []], snd (constructor [[4, 5, 6], []])) \<and>
   (case set_data [[4, 5, 6], [], []] (snd (constructor [[4, 5, 6], []])) (Some 0) of
      (h', s') \<Rightarrow> samples h' s' = 3 \<and> stored h' s' = [4, 5, 6] \<and> p_data s' \<noteq> 0 \<and>
                  stored (h'[0 := [9]]) s' = [4, 5, 6])"
proof -
  let ?h = "[[4, 5, 6], [], []] :: heap"
  let ?s = "snd (constructor [[4, 5, 6], []])"
  have a: "valid_ref ?h 0 \<and> ?h ! 0 \<noteq> [] \<and> ?h ! 1 = [] \<and> ?h ! 0 = [4, 5, 6]"
    by (simp add: valid_ref_def)
  have n: "set_data ?h ?s None = (?h, ?s)"
    using assignment_sample_count [of None ?h ?s] by simp
  have e: "set_data ?h ?s (Some 1) = (?h, ?s)"
    using a assignment_sample_count [of "Some 1" ?h ?s] by simp
  have c: "case set_data ?h ?s (Some 0) of
      (h', s') \<Rightarrow> samples h' s' = 3 \<and> stored h' s' = [4, 5, 6] \<and> p_data s' \<noteq> 0 \<and>
                  stored (h'[0 := [9]]) s' = [4, 5, 6]"
    using a assignment_sample_count [of "Some 0" ?h ?s] by (auto split: prod.splits)
  from a n e c show ?thesis by simp
qed

lemma nth_valid_append: "valid_ref h a \<Longrightarrow> (h @ h') ! a = h ! a"
  by (simp add: valid_ref_def nth_append)

lemma loaded_eq:
  "xs \<noteq> [] \<Longrightarrow>
   loaded xs =
     ([[], xs, xs],
      \<lparr> p_data = 2, p_mean = 0, p_std = Num 0, p_median = 0, p_mode = 0, p_min = 0, p_max = 0,
        p_minInvalidated = True, p_maxInvalidated = True, p_meanInvalidated = True,
        p_stdInvalidated = True, p_medianInvalidated = True, p_modeInvalidated = True \<rparr>)"
  by (simp add: loaded_def session_def constructor_def alloc_def set_data_def slice_def)

lemma stored_loaded: "xs \<noteq> [] \<Longrightarrow> stored (fst (loaded xs)) (snd (loaded xs)) = xs"
  by (simp add: loaded_eq stored_def)

subsection \<open>Mean and standard deviation on an invalidated or valid cache\<close>

lemma sum_loop_sum_list: "sum_loop xs s = s + sum_list xs"
  by (induction xs arbitrary: s) auto

lemma mean_invalidated:
  "p_meanInvalidated s \<Longrightarrow> stored h s \<noteq> [] \<Longrightarrow>
   mean h s = (arith_mean (stored h s),
               s\<lparr> p_mean := arith_mean (stored h s), p_meanInvalidated := False \<rparr>)"
  by (cases "stored h s") (simp_all add: mean_def arith_mean_def sum_loop_sum_list)

lemma mean_cached: "\<not> p_meanInvalidated s \<Longrightarrow> mean h s = (p_mean s, s)"
  by (simp add: mean_def)

lemma mean_empty: "stored h s = [] \<Longrightarrow> mean h s = ((if p_meanInvalidated s then 0 else p_mean s), s)"
  by (simp add: mean_def)

lemma std_invalidated:
  "p_stdInvalidated s \<Longrightarrow> length (stored h s) \<noteq> 1 \<Longrightarrow>
   std h s =
     (js_sqrt (Num (welford_loop (stored h s) 0 0 0 / (real (length (stored h s)) - 1))),
      s\<lparr> p_std := js_sqrt (Num (welford_loop (stored h s) 0 0 0
                                   / (real (length (stored h s)) - 1))),
         p_stdInvalidated := False \<rparr>)"
  by (simp add: std_def Let_def)

lemma std_cached: "\<not> p_stdInvalidated s \<Longrightarrow> std h s = (p_std s, s)"
  by (simp add: std_def)

lemma std_single: "p_stdInvalidated s \<Longrightarrow> length (stored h s) = 1 \<Longrightarrow> std h s = (Num 0, s)"
  by (simp add: std_def)

subsection \<open>Covariance and correlation\<close>

lemma covariance_invalid:
  "x = None \<or> y = None \<or>
   (\<exists>a b. x = Some a \<and> y = Some b \<and> (length (h ! a) < 2 \<or> length (h ! a) \<noteq> length (h ! b)))
   \<Longrightarrow> covariance h s x y = (0, h, s)"
  by (auto simp: covariance_def split: option.splits)

lemma correlation_invalid:
  "x = None \<or> y = None \<or>
   (\<exists>a b. x = Some a \<and> y = Some b \<and> (length (h ! a) < 2 \<or> length (h ! a) \<noteq> length (h ! b)))
   \<Longrightarrow> correlation h s x y = (Num 0, h, s)"
  by (auto simp: correlation_def split: option.splits)

text \<open>What a valid call of \<open>covariance\<close> returns and leaves behind: two copies of each
  input in the store, the engine pointing at the last copy of \<open>y\<close>.\<close>

lemma covariance_valid:
  assumes "valid_ref h a" "valid_ref h b" "2 \<le> length (h ! a)" "length (h ! a) = length (h ! b)"
  shows "covariance h s (Some a) (Some b) =
           (cov_loop (h ! a) (h ! b) (arith_mean (h ! a)) (arith_mean (h ! b)) 0
              / (real (length (h ! a)) - 1),
            h @ [h ! a, h ! a, h ! b, h ! b],
            s\<lparr> p_data := length h + 3, p_mean := arith_mean (h ! b),
               p_minInvalidated := True, p_maxInvalidated := True,
               p_meanInvalidated := False, p_stdInvalidated := True,
               p_medianInvalidated := True, p_modeInvalidated := True \<rparr>)"
proof -
  have na: "h ! a \<noteq> []" and nb: "h ! b \<noteq> []" using assms by auto
  have b1: "(h @ [h ! a, h ! a]) ! b = h ! b" "(h @ [h ! a, h ! a, h ! b, h ! b]) ! b = h ! b"
    "(h @ [h ! a, h ! a, h ! b, h ! b]) ! a = h ! a"
    using assms by (simp_all add: valid_ref_def nth_append)
  show ?thesis
    using assms na nb b1
    by (simp add: covariance_def slice_def alloc_def set_data_Some Let_def mean_invalidated
        stored_def nth_append)
qed

lemma correlation_valid:
  assumes "valid_ref h a" "valid_ref h b" "2 \<le> length (h ! a)" "length (h ! a) = length (h ! b)"
  shows "\<exists>r s'. correlation h s (Some a) (Some b) =
            (r, h @ [h ! a, h ! b, h ! a, h ! a, h ! b, h ! b], s') \<and>
            p_data s' = length h + 5"
proof -
  let ?h1 = "h @ [h ! a]"
  let ?h2 = "h @ [h ! a, h ! b]"
  have na: "h ! a \<noteq> []" and nb: "h ! b \<noteq> []" using assms by auto
  have l1: "length (h ! a) \<noteq> Suc 0" "length (h ! b) \<noteq> Suc 0" using assms by auto
  have v2: "valid_ref ?h2 a" "valid_ref ?h2 b"
    using assms(1,2) by (simp_all add: valid_ref_def)
  have e2: "?h2 ! a = h ! a" "?h2 ! b = h ! b" "?h1 ! b = h ! b"
    using assms(1,2) by (simp_all add: valid_ref_def nth_append)
  have c: "2 \<le> length (?h2 ! a)" "length (?h2 ! a) = length (?h2 ! b)"
    using assms e2 by simp_all
  show ?thesis
    using na nb l1 e2 assms(3,4)
    by (simp add: correlation_def Let_def set_data_Some std_invalidated stored_def
        covariance_valid [OF v2 c] nth_append del: js_sqrt.simps)
qed

lemma cov_loop_commute: "cov_loop xs ys xm ym s = cov_loop ys xs ym xm s"
  by (induction xs ys xm ym s rule: cov_loop.induct) (simp_all add: mult.commute)

text \<open>
  Claim C8. With too few samples the operations return their neutral value: the
  quantiles of fewer than two samples are the empty sequence, the skewness of fewer than
  three and the kurtosis of fewer than four are 0 (the engine unchanged), and covariance
  and correlation of two series of different lengths, or of fewer than two points, are 0.
\<close>

theorem insufficient_size_neutral:
  "(length (stored h s) < 2 \<longrightarrow> getQuantile h s p = []) \<and>
   (length (stored h s) < 3 \<longrightarrow> skewness h s = (Num 0, s)) \<and>
   (length (stored h s) < 4 \<longrightarrow> kurtosis h s = (Num 0, s)) \<and>
   (length (h ! a) \<noteq> length (h ! b) \<or> length (h ! a) < 2 \<longrightarrow>
      fst (covariance h s (Some a) (Some b)) = 0 \<and>
      fst (correlation h s (Some a) (Some b)) = Num 0)"
  by (auto simp: getQuantile_def skewness_def kurtosis_def covariance_def correlation_def Let_def)

theorem insufficient_size_neutral_witness:
  "length (stored (fst (loaded [7])) (snd (loaded [7]))) < 2 \<and>
   getQuantile (fst (loaded [7])) (snd (loaded [7])) (Num (1 / 4)) = [] \<and>
   length (stored (fst (loaded [7, 8])) (snd (loaded [7, 8]))) < 3 \<and>
   skewness (fst (loaded [7, 8])) (snd (loaded [7, 8])) = (Num 0, snd (loaded [7, 8])) \<and>
   length (stored (fst (loaded [7, 8, 9])) (snd (loaded [7, 8, 9]))) < 4 \<and>
   kurtosis (fst (loaded [7, 8, 9])) (snd (loaded [7, 8, 9])) = (Num 0, snd (loaded [7, 8, 9])) \<and>
   length (([[1, 2, 3], [4, 5]] :: heap) ! 0) \<noteq> length (([[1, 2, 3], [4, 5]] :: heap) ! 1) \<and>
   fst (covariance [[1, 2, 3], [4, 5]] (snd (loaded [7])) (Some 0) (Some 1)) = 0 \<and>
   fst (correlation [[1, 2, 3], [4, 5]] (snd (loaded [7])) (Some 0) (Some 1)) = Num 0"
proof -
  have l: "length (stored (fst (loaded [7])) (snd (loaded [7]))) < 2"
    "length (stored (fst (loaded [7, 8])) (snd (loaded [7, 8]))) < 3"
    "length (stored (fst (loaded [7, 8, 9])) (snd (loaded [7, 8, 9]))) < 4"
    by (simp_all add: stored_loaded)
  have m: "length (([[1, 2, 3], [4, 5]] :: heap) ! 0) \<noteq> length (([[1, 2, 3], [4, 5]] :: heap) ! 1)"
    by simp
  have q: "getQuantile (fst (loaded [7])) (snd (loaded [7])) (Num (1 / 4)) = []"
    using l(1) insufficient_size_neutral [of "fst (loaded [7])" "snd (loaded [7])" "Num (1 / 4)" 0 0]
    by blast
  have sk: "skewness (fst (loaded [7, 8])) (snd (loaded [7, 8])) = (Num 0, snd (loaded [7, 8]))"
    using l(2) insufficient_size_neutral [of "fst (loaded [7, 8])" "snd (loaded [7, 8])" NaN 0 0]
    by blast
  have ku: "kurtosis (fst (loaded [7, 8, 9])) (snd (loaded [7, 8, 9]))
      = (Num 0, snd (loaded [7, 8, 9]))"
    using l(3)
      insufficient_size_neutral [of "fst (loaded [7, 8, 9])" "snd (loaded [7, 8, 9])" NaN 0 0]
    by blast
  have co: "fst (covariance [[1, 2, 3], [4, 5]] (snd (loaded [7])) (Some 0) (Some 1)) = 0 \<and>
      fst (correlation [[1, 2, 3], [4, 5]] (snd (loaded [7])) (Some 0) (Some 1)) = Num 0"
    using m insufficient_size_neutral [of "[[1, 2, 3], [4, 5]]" "snd (loaded [7])" NaN 0 1]
    by blast
  from l m q sk ku co show ?thesis by blast
qed

text \<open>
  Claim C9. A call of covariance or correlation with an absent argument, with series of
  different lengths or with fewer than two points returns 0 and leaves the store and the
  engine (the stored sample, each cached value, each flag) exactly as they were.
\<close>

theorem invalid_association_unchanged:
  "x = None \<or> y = None \<or>
   (\<exists>a b. x = Some a \<and> y = Some b \<and> (length (h ! a) < 2 \<or> length (h ! a) \<noteq> length (h ! b)))
   \<Longrightarrow> covariance h s x y = (0, h, s) \<and> correlation h s x y = (Num 0, h, s)"
  by (simp add: covariance_invalid correlation_invalid)

theorem invalid_association_unchanged_witness:
  "covariance (fst (loaded [7, 8])) (snd (loaded [7, 8])) None (Some 1)
     = (0, fst (loaded [7, 8]), snd (loaded [7, 8])) \<and>
   correlation (fst (loaded [7, 8])) (snd (loaded [7, 8])) None (Some 1)
     = (Num 0, fst (loaded [7, 8]), snd (loaded [7, 8])) \<and>
   length (fst (loaded [7, 8]) ! 0) < 2 \<and>
   covariance (fst (loaded [7, 8])) (snd (loaded [7, 8])) (Some 0) (Some 1)
     = (0, fst (loaded [7, 8]), snd (loaded [7, 8])) \<and>
   correlation (fst (loaded [7, 8])) (snd (loaded [7, 8])) (Some 0) (Some 1)
     = (Num 0, fst (loaded [7, 8]), snd (loaded [7, 8]))"
proof -
  have l: "length (fst (loaded [7, 8]) ! 0) < 2" by (simp add: loaded_eq)
  show ?thesis
    using l
      invalid_association_unchanged [of None "Some 1" "fst (loaded [7, 8])" "snd (loaded [7, 8])"]
      invalid_association_unchanged [of "Some 0" "Some 1" "fst (loaded [7, 8])"
        "snd (loaded [7, 8])"]
    by blast
qed

text \<open>
  Claim C7. After a call of covariance or correlation with valid inputs (both arrays
  present, of the same length, at least two points) the engine's stored sample is a
  copy of \<open>y\<close>: it has the elements of \<open>y\<close> and lives at an address that was not in
  use before the call, so not at the address of \<open>y\<close>, which the call leaves as it was.
\<close>

theorem association_stores_copy_of_y:
  assumes "valid_ref h a" "valid_ref h b" "2 \<le> length (h ! a)" "length (h ! a) = length (h ! b)"
  shows "(case covariance h s (Some a) (Some b) of
            (c, h', s') \<Rightarrow> stored h' s' = h ! b \<and> h' ! b = h ! b \<and> p_data s' \<noteq> b \<and>
                           \<not> valid_ref h (p_data s')) \<and>
         (case correlation h s (Some a) (Some b) of
            (r, h', s') \<Rightarrow> stored h' s' = h ! b \<and> h' ! b = h ! b \<and> p_data s' \<noteq> b \<and>
                           \<not> valid_ref h (p_data s'))"
proof -
  obtain r s' where r: "correlation h s (Some a) (Some b) =
      (r, h @ [h ! a, h ! b, h ! a, h ! a, h ! b, h ! b], s')" "p_data s' = length h + 5"
    using correlation_valid [OF assms] by blast
  show ?thesis
    using assms(1,2)
    by (simp add: covariance_valid [OF assms] r stored_def valid_ref_def nth_append)
qed

theorem association_stores_copy_of_y_witness:
  "valid_ref [[1, 2, 4], [3, 5, 6], []] 0 \<and> valid_ref [[1, 2, 4], [3, 5, 6], []] 1 \<and>
   2 \<le> length (([[1, 2, 4], [3, 5, 6], []] :: heap) ! 0) \<and>
   length (([[1, 2, 4], [3, 5, 6], []] :: heap) ! 0)
     = length (([[1, 2, 4], [3, 5, 6], []] :: heap) ! 1) \<and>
   (case covariance [[1, 2, 4], [3, 5, 6], []] (snd (constructor [[1, 2, 4], [3, 5, 6]]))
           (Some 0) (Some 1) of
      (c, h', s') \<Rightarrow> stored h' s' = [3, 5, 6] \<and> p_data s' \<noteq> 1) \<and>
   (case correlation [[1, 2, 4], [3, 5, 6], []] (snd (constructor [[1, 2, 4], [3, 5, 6]]))
           (Some 0) (Some 1) of
      (r, h', s') \<Rightarrow> stored h' s' = [3, 5, 6] \<and> p_data s' \<noteq> 1)"
proof -
  let ?h = "[[1, 2, 4], [3, 5, 6], []] :: heap"
  have v: "valid_ref ?h 0" "valid_ref ?h 1" "2 \<le> length (?h ! 0)"
    "length (?h ! 0) = length (?h ! 1)"
    by (simp_all add: valid_ref_def)
  have e: "?h ! 1 = [3, 5, 6]" by simp
  show ?thesis
    using v e association_stores_copy_of_y [OF v, of "snd (constructor [[1, 2, 4], [3, 5, 6]])"]
    by (auto split: prod.splits)
qed

text \<open>
  Claim C10. Covariance is symmetric: for arrays \<open>x\<close> and \<open>y\<close> (each absent or an
  array in the store) \<open>covariance(x, y)\<close> and \<open>covariance(y, x)\<close> return the same
  number, in exact arithmetic.
\<close>

theorem covariance_symmetric:
  assumes "valid_arg h x" "valid_arg h y"
  shows "fst (covariance h s x y) = fst (covariance h s y x)"
proof (cases "\<exists>a b. x = Some a \<and> y = Some b \<and> 2 \<le> length (h ! a) \<and> length (h ! a) = length (h ! b)")
  case True
  then obtain a b where ab: "x = Some a" "y = Some b" "2 \<le> length (h ! a)"
    "length (h ! a) = length (h ! b)" by blast
  with assms have v: "valid_ref h a" "valid_ref h b" by (simp_all add: valid_arg_def)
  from ab have ba: "2 \<le> length (h ! b)" "length (h ! b) = length (h ! a)" by simp_all
  show ?thesis
    unfolding ab(1,2) covariance_valid [OF v ab(3,4)] covariance_valid [OF v(2,1) ba]
    by (simp add: cov_loop_commute [of "h ! a"] ab(4))
next
  case False
  then have "covariance h s x y = (0, h, s)" "covariance h s y x = (0, h, s)"
    by (auto intro!: covariance_invalid simp: not_le) (metis not_None_eq)+
  then show ?thesis by simp
qed

theorem covariance_symmetric_witness:
  "valid_arg [[21 / 10, 5 / 2, 4, 18 / 5], [8, 12, 14, 10], []] (Some 0) \<and>
   valid_arg [[21 / 10, 5 / 2, 4, 18 / 5], [8, 12, 14, 10], []] (Some 1) \<and>
   fst (covariance [[21 / 10, 5 / 2, 4, 18 / 5], [8, 12, 14, 10], []]
          (snd (constructor [[21 / 10, 5 / 2, 4, 18 / 5], [8, 12, 14, 10]])) (Some 0) (Some 1))
     = 23 / 15 \<and>
   fst (covariance [[21 / 10, 5 / 2, 4, 18 / 5], [8, 12, 14, 10], []]
          (snd (constructor [[21 / 10, 5 / 2, 4, 18 / 5], [8, 12, 14, 10]])) (Some 1) (Some 0))
     = 23 / 15"
proof -
  let ?h = "[[21 / 10, 5 / 2, 4, 18 / 5], [8, 12, 14, 10], []] :: heap"
  let ?s = "snd (constructor [[21 / 10, 5 / 2, 4, 18 / 5], [8, 12, 14, 10]])"
  have v: "valid_arg ?h (Some 0)" "valid_arg ?h (Some 1)"
    by (simp_all add: valid_arg_def valid_ref_def)
  have c: "fst (covariance ?h ?s (Some 0) (Some 1)) = 23 / 15"
    by (simp add: covariance_def slice_def alloc_def set_data_def mean_def stored_def)
  show ?thesis
    using v c covariance_symmetric [OF v, of ?s] by simp
qed

subsection \<open>Minimum, maximum and the five-number summary\<close>

text \<open>
  Claim C3 says that the last entry of the five-number summary is \<open>maximum()\<close> for
  every non-empty sample. The getter \<open>max\<close> starts its scan at \<^verbatim>\<open>Number.MIN_VALUE\<close>, the
  smallest positive double, so on the sample \<open>[-2, -1]\<close> it returns that constant, while
  the summary ends with the true maximum \<open>-1\<close> (and starts with \<open>minimum() = -2\<close>).
\<close>

theorem max_of_negative_sample:
  "(case loaded [- 2, - 1] of
      (h, s) \<Rightarrow>
        fiveNumbers h s = [- 2, - 2, - 3 / 2, - 1, - 1] \<and>
        fst (min_ds h s) = - 2 \<and>
        fst (max_ds h s) = MIN_VALUE \<and>
        fiveNumbers h s ! 4 \<noteq> fst (max_ds h s))"
  by (simp add: loaded_eq fiveNumbers_def stored_def min_ds_def max_ds_def isEven_def
      median_sorted_def MIN_VALUE_def MAX_VALUE_def)

subsection \<open>Quantiles\<close>

text \<open>
  Claim C4 describes the position array as starting with \<open>f[0] = 0\<close>. The code creates it
  with \<^verbatim>\<open>new Array<number>(0.0)\<close>, the array of length zero, so \<open>f[0]\<close> is a hole and
  every position computed from it is NaN. On the sample \<open>[1, 2, 3]\<close> with \<open>p = 0.25\<close>
  each interior quantile is NaN, where the claim's rule gives \<open>1.5, 2, 2.5\<close>.
\<close>

theorem quantile_interior_NaN:
  "(case loaded [1, 2, 3] of
      (h, s) \<Rightarrow> getQuantile h s (Num (1 / 4)) = [Num 1, NaN, NaN, NaN, Num 3]) \<and>
   map (quantile_level_spec [1, 2, 3]) [1 / 4, 2 / 4, 3 / 4] = [3 / 2, 2, 5 / 2]"
  by (simp add: loaded_eq getQuantile_def stored_def quantile_p_def sparse_get_def
      sparse_set_def sparse_push_def nth_num_def num_sub_def quantile_level_spec_def
      f_spec_def)

subsection \<open>Standard deviation: the loop and the recurrence\<close>

lemma welford_loop_spec:
  "xs = pre @ ys \<Longrightarrow> welford_spec xs (length pre) = (m, s) \<Longrightarrow>
   welford_loop ys (length pre) m s = snd (welford_spec xs (length xs))"
proof (induction ys arbitrary: pre m s)
  case Nil
  then show ?case by simp
next
  case (Cons y ys)
  have "xs = (pre @ [y]) @ ys" using Cons.prems by simp
  moreover have "welford_spec xs (length (pre @ [y])) =
      (m + (y - m) / real (length pre + 1),
       s + (y - (m + (y - m) / real (length pre + 1))) * (y - m))"
    using Cons.prems by (simp add: Let_def)
  ultimately show ?case
    using Cons.IH [of "pre @ [y]"] by (simp add: Let_def)
qed

lemma welford_loop_eq: "welford_loop xs 0 0 0 = snd (welford_spec xs (length xs))"
  using welford_loop_spec [of xs "[]" xs 0 0] by simp

lemma welford_spec_nonneg: "0 \<le> snd (welford_spec xs k)"
proof (induction k)
  case 0
  then show ?case by simp
next
  case (Suc k)
  obtain m s where ms: "welford_spec xs k = (m, s)" by (cases "welford_spec xs k")
  let ?d = "xs ! k - m"
  have "(xs ! k - (m + ?d / real (k + 1))) * ?d = ?d * ?d * (real k / real (k + 1))"
    by (simp add: field_simps)
  moreover have "0 \<le> ?d * ?d * (real k / real (k + 1))" by simp
  ultimately show ?case using Suc ms by (simp add: Let_def)
qed

lemma std_value_spec:
  "length xs \<noteq> 1 \<Longrightarrow>
   std_value xs = Num (sqrt (snd (welford_spec xs (length xs)) / (real (length xs) - 1)))"
proof (cases "length xs = 0")
  case True
  then show ?thesis by (simp add: std_value_def)
next
  case False
  assume "length xs \<noteq> 1"
  with False have "0 < real (length xs) - 1" by (cases xs; cases "tl xs") auto
  then have "0 \<le> snd (welford_spec xs (length xs)) / (real (length xs) - 1)"
    using welford_spec_nonneg [of xs "length xs"] by simp
  then show ?thesis by (simp add: std_value_def welford_loop_eq)
qed

subsection \<open>The count table and the selection loop of the mode\<close>

lemma hash_get_notin: "y \<notin> fst ` set H \<Longrightarrow> hash_get H y = 0"
  by (induction H) auto

lemma keys_incr: "map fst (hash_incr H x) = map fst H"
  by (induction H) auto

lemma hash_get_incr:
  "hash_get (hash_incr H x) y = (if x = y \<and> x \<in> fst ` set H then hash_get H y + 1 else hash_get H y)"
  by (induction H) force+

lemma hash_get_append:
  "hash_get (H @ [(x, c)]) y =
     (if y \<in> fst ` set H then hash_get H y else if x = y then c else 0)"
  by (induction H) force+

lemma hash_get_count_loop:
  "hash_get (count_loop xs H) y = hash_get H y + int (count_list xs y)"
proof (induction xs arbitrary: H)
  case Nil
  then show ?case by simp
next
  case (Cons x xs)
  show ?case
    by (auto simp: Cons.IH hasOwnProperty_def hash_get_incr hash_get_append hash_get_notin)
qed

lemma keys_count_loop: "set (map fst (count_loop xs H)) = set (map fst H) \<union> set xs"
proof (induction xs arbitrary: H)
  case Nil
  then show ?case by simp
next
  case (Cons x xs)
  have "set (map fst (hash_incr H x)) = set (map fst H)" by (simp only: keys_incr)
  moreover have "set (map fst (H @ [(x, 1)])) = insert x (set (map fst H))" by simp
  ultimately show ?case
    using Cons.IH [of "hash_incr H x"] Cons.IH [of "H @ [(x, 1)]"]
    by (cases "hasOwnProperty H x") (auto simp: hasOwnProperty_def simp del: set_map)
qed

lemma first_index_in:
  "a \<in> set pre \<Longrightarrow> first_index (pre @ r) a < length pre"
proof -
  assume a: "a \<in> set pre"
  then have "takeWhile (\<lambda>z. z \<noteq> a) (pre @ r) = takeWhile (\<lambda>z. z \<noteq> a) pre"
    by (simp add: takeWhile_append1)
  moreover have "takeWhile (\<lambda>z. z \<noteq> a) pre \<noteq> pre"
    using a by (auto simp: takeWhile_eq_all_conv)
  moreover have "length (takeWhile (\<lambda>z. z \<noteq> a) pre) \<le> length pre"
    by (rule length_takeWhile_le)
  ultimately show ?thesis
    unfolding first_index_def
    by (metis le_neq_implies_less takeWhile_eq_take take_all_iff order_refl)
qed

lemma first_index_notin:
  "x \<notin> set pre \<Longrightarrow> first_index (pre @ x # r) x = length pre"
proof -
  assume "x \<notin> set pre"
  then have "takeWhile (\<lambda>z. z \<noteq> x) (pre @ x # r) = pre @ takeWhile (\<lambda>z. z \<noteq> x) (x # r)"
    by (intro takeWhile_append2) auto
  then show ?thesis by (simp add: first_index_def)
qed

lemma keys_order:
  "set (map fst H) = set pre \<Longrightarrow>
   sorted_wrt (\<lambda>a b. first_index (pre @ xs) a < first_index (pre @ xs) b) (map fst H) \<Longrightarrow>
   sorted_wrt (\<lambda>a b. first_index (pre @ xs) a < first_index (pre @ xs) b)
     (map fst (count_loop xs H))"
proof (induction xs arbitrary: pre H)
  case Nil
  then show ?case by simp
next
  case (Cons x xs)
  show ?case
  proof (cases "hasOwnProperty H x")
    case True
    then have "x \<in> set pre" using Cons.prems(1) by (simp add: hasOwnProperty_def)
    then have "set (map fst (hash_incr H x)) = set (pre @ [x])"
      using Cons.prems(1) by (auto simp: keys_incr)
    moreover have "sorted_wrt (\<lambda>a b. first_index ((pre @ [x]) @ xs) a < first_index ((pre @ [x]) @ xs) b)
        (map fst (hash_incr H x))"
      using Cons.prems(2) by (simp add: keys_incr)
    ultimately show ?thesis
      using Cons.IH [of "hash_incr H x" "pre @ [x]"] True by simp
  next
    case False
    then have nx: "x \<notin> set pre" using Cons.prems(1) by (simp add: hasOwnProperty_def)
    have "set (map fst (H @ [(x, 1)])) = set (pre @ [x])"
      using Cons.prems(1) by auto
    moreover have "sorted_wrt (\<lambda>a b. first_index ((pre @ [x]) @ xs) a < first_index ((pre @ [x]) @ xs) b)
        (map fst (H @ [(x, 1)]))"
      using Cons.prems nx first_index_in [of _ pre "x # xs"] first_index_notin [OF nx, of xs]
      by (auto simp: sorted_wrt_append)
    ultimately show ?thesis
      using Cons.IH [of "H @ [(x, 1)]" "pre @ [x]"] False by simp
  qed
qed

lemma keys_first_occurrence_order:
  "sorted_wrt (\<lambda>a b. first_index xs a < first_index xs b) (map fst (count_loop xs []))"
  using keys_order [of "[]" "[]" xs] by simp

text \<open>The selection loop returns the first key, in the order of the enumeration, whose
  count is maximal, provided some count exceeds the starting one.\<close>

lemma mode_loop_first_max:
  "(mode_loop ks H cnt md = md \<and> (\<forall>y\<in>set ks. hash_get H y \<le> cnt)) \<or>
   (\<exists>pre k post. ks = pre @ k # post \<and> mode_loop ks H cnt md = parseInt_toString k \<and>
      cnt < hash_get H k \<and> (\<forall>y\<in>set pre. hash_get H y < hash_get H k) \<and>
      (\<forall>y\<in>set post. hash_get H y \<le> hash_get H k))"
proof (induction ks arbitrary: cnt md)
  case Nil
  then show ?case by simp
next
  case (Cons v ks)
  show ?case
  proof (cases "hash_get H v > cnt")
    case True
    from Cons.IH [of "hash_get H v" "parseInt_toString v"]
    show ?thesis
    proof
      assume a: "mode_loop ks H (hash_get H v) (parseInt_toString v) = parseInt_toString v \<and>
        (\<forall>y\<in>set ks. hash_get H y \<le> hash_get H v)"
      have "v # ks = [] @ v # ks \<and> mode_loop (v # ks) H cnt md = parseInt_toString v \<and>
        cnt < hash_get H v \<and> (\<forall>y\<in>set []. hash_get H y < hash_get H v) \<and>
        (\<forall>y\<in>set ks. hash_get H y \<le> hash_get H v)"
        using a True by simp
      then show ?thesis by blast
    next
      assume "\<exists>pre k post. ks = pre @ k # post \<and>
        mode_loop ks H (hash_get H v) (parseInt_toString v) = parseInt_toString k \<and>
        hash_get H v < hash_get H k \<and> (\<forall>y\<in>set pre. hash_get H y < hash_get H k) \<and>
        (\<forall>y\<in>set post. hash_get H y \<le> hash_get H k)"
      then obtain pre k post where b: "ks = pre @ k # post"
        "mode_loop ks H (hash_get H v) (parseInt_toString v) = parseInt_toString k"
        "hash_get H v < hash_get H k" "\<forall>y\<in>set pre. hash_get H y < hash_get H k"
        "\<forall>y\<in>set post. hash_get H y \<le> hash_get H k" by blast
      have "v # ks = (v # pre) @ k # post \<and> mode_loop (v # ks) H cnt md = parseInt_toString k \<and>
        cnt < hash_get H k \<and> (\<forall>y\<in>set (v # pre). hash_get H y < hash_get H k) \<and>
        (\<forall>y\<in>set post. hash_get H y \<le> hash_get H k)"
        using b True by simp
      then show ?thesis by blast
    qed
  next
    case False
    from Cons.IH [of cnt md]
    show ?thesis
    proof
      assume "mode_loop ks H cnt md = md \<and> (\<forall>y\<in>set ks. hash_get H y \<le> cnt)"
      then show ?thesis using False by simp
    next
      assume "\<exists>pre k post. ks = pre @ k # post \<and> mode_loop ks H cnt md = parseInt_toString k \<and>
        cnt < hash_get H k \<and> (\<forall>y\<in>set pre. hash_get H y < hash_get H k) \<and>
        (\<forall>y\<in>set post. hash_get H y \<le> hash_get H k)"
      then obtain pre k post where b: "ks = pre @ k # post"
        "mode_loop ks H cnt md = parseInt_toString k"
        "cnt < hash_get H k" "\<forall>y\<in>set pre. hash_get H y < hash_get H k"
        "\<forall>y\<in>set post. hash_get H y \<le> hash_get H k" by blast
      have "v # ks = (v # pre) @ k # post \<and> mode_loop (v # ks) H cnt md = parseInt_toString k \<and>
        cnt < hash_get H k \<and> (\<forall>y\<in>set (v # pre). hash_get H y < hash_get H k) \<and>
        (\<forall>y\<in>set post. hash_get H y \<le> hash_get H k)"
        using b False by simp
      then show ?thesis by blast
    qed
  qed
qed

lemma count_pos: "y \<in> set xs \<Longrightarrow> 0 < count_list xs y"
  by (induction xs) auto

lemma set_for_in_keys: "set (for_in_keys H) = set (map fst H)"
  by (auto simp: for_in_keys_def)

lemma mode_loop_start_irrelevant:
  "\<exists>y\<in>set ks. cnt < hash_get H y \<Longrightarrow> mode_loop ks H cnt md = mode_loop ks H cnt md'"
  by (induction ks arbitrary: cnt md md') auto

lemma mode_loop_value:
  assumes "xs \<noteq> []"
  shows "mode_loop (for_in_keys (count_loop xs [])) (count_loop xs []) (- 1) md = mode_value xs"
proof -
  obtain y where y: "y \<in> set xs" using assms by (cases xs) auto
  then have "y \<in> set (for_in_keys (count_loop xs []))"
    by (simp only: set_for_in_keys keys_count_loop) simp
  moreover have "- 1 < hash_get (count_loop xs []) y"
    using count_pos [OF y] by (simp add: hash_get_count_loop)
  ultimately show ?thesis
    unfolding mode_value_def Let_def
    by (intro mode_loop_start_irrelevant) blast
qed

lemma mode_invalidated:
  "p_modeInvalidated s \<Longrightarrow> stored h s \<noteq> [] \<Longrightarrow>
   mode h s = (mode_value (stored h s),
               s\<lparr> p_mode := mode_value (stored h s), p_modeInvalidated := False \<rparr>)"
  by (simp add: mode_def Let_def mode_loop_value)

lemma mode_cached: "\<not> p_modeInvalidated s \<Longrightarrow> mode h s = (p_mode s, s)"
  by (simp add: mode_def)

lemma mode_empty: "p_modeInvalidated s \<Longrightarrow> stored h s = [] \<Longrightarrow> mode h s = (0, s)"
  by (simp add: mode_def)

subsection \<open>Median on an invalidated or valid cache\<close>

lemma median_invalidated:
  "p_medianInvalidated s \<Longrightarrow> stored h s \<noteq> [] \<Longrightarrow>
   median h s = (median_sorted (sort (stored h s)),
                 s\<lparr> p_median := median_sorted (sort (stored h s)), p_medianInvalidated := False \<rparr>)"
  by (simp add: median_def median_sorted_def Let_def)

lemma median_cached: "\<not> p_medianInvalidated s \<Longrightarrow> median h s = (p_median s, s)"
  by (simp add: median_def)

lemma median_empty: "p_medianInvalidated s \<Longrightarrow> stored h s = [] \<Longrightarrow> median h s = (0, s)"
  by (simp add: median_def)

lemma std_invalidated_value:
  "p_stdInvalidated s \<Longrightarrow> length (stored h s) \<noteq> 1 \<Longrightarrow>
   std h s = (std_value (stored h s),
              s\<lparr> p_std := std_value (stored h s), p_stdInvalidated := False \<rparr>)"
  by (simp add: std_invalidated std_value_def del: js_sqrt.simps)

subsection \<open>The cache invariant holds along every session\<close>

lemma coherent_constructor: "coherent (fst (constructor h)) (snd (constructor h))"
  by (simp add: coherent_def constructor_def alloc_def valid_ref_def)

lemma coherent_extend: "coherent h s \<Longrightarrow> coherent (h @ e) s"
  by (simp add: coherent_def stored_def valid_ref_def nth_append)

lemma coherent_set_data:
  "coherent h s \<Longrightarrow> coherent (fst (set_data h s r)) (snd (set_data h s r))"
proof (cases r)
  case None
  assume "coherent h s"
  then show ?thesis using None by (simp add: set_data_None)
next
  case (Some a)
  assume c: "coherent h s"
  show ?thesis
  proof (cases "h ! a = []")
    case True
    then show ?thesis using c Some by (simp add: set_data_empty)
  next
    case False
    then show ?thesis using Some
      by (simp add: set_data_Some coherent_def valid_ref_def)
  qed
qed

lemma coherent_mean: "coherent h s \<Longrightarrow> coherent h (snd (mean h s))"
  by (cases "p_meanInvalidated s"; cases "stored h s = []")
     (simp_all add: mean_cached mean_empty mean_invalidated coherent_def stored_def)

lemma coherent_std: "coherent h s \<Longrightarrow> coherent h (snd (std h s))"
  by (cases "p_stdInvalidated s"; cases "length (stored h s) = 1")
     (simp_all add: std_cached std_single std_invalidated_value coherent_def stored_def)

lemma coherent_median: "coherent h s \<Longrightarrow> coherent h (snd (median h s))"
  by (cases "p_medianInvalidated s"; cases "stored h s = []")
     (simp_all add: median_cached median_empty median_invalidated coherent_def stored_def)

lemma coherent_mode: "coherent h s \<Longrightarrow> coherent h (snd (mode h s))"
  by (cases "p_modeInvalidated s"; cases "stored h s = []")
     (simp_all add: mode_cached mode_empty mode_invalidated coherent_def stored_def)

lemma coherent_min: "coherent h s \<Longrightarrow> coherent h (snd (min_ds h s))"
  by (auto simp: min_ds_def Let_def coherent_def stored_def)

lemma coherent_max: "coherent h s \<Longrightarrow> coherent h (snd (max_ds h s))"
  by (auto simp: max_ds_def Let_def coherent_def stored_def)

lemma cv_snd: "snd (cv h s) = snd (mean h (snd (std h s)))"
  by (simp add: cv_def split: prod.splits)

lemma skewness_snd:
  "snd (skewness h s) = (if length (stored h s) < 3 then s else snd (std h (snd (mean h s))))"
  by (simp add: skewness_def Let_def split: prod.splits)

lemma kurtosis_snd:
  "snd (kurtosis h s) = (if length (stored h s) < 4 then s else snd (std h (snd (mean h s))))"
  by (simp add: kurtosis_def Let_def split: prod.splits)

lemma getConfidenceInterval_snd:
  "snd (getConfidenceInterval h s t) =
     (if length (stored h s) = 0 then s else snd (mean h (snd (std h s))))"
  by (simp add: getConfidenceInterval_def Let_def split: prod.splits)

lemma association_cases:
  "(\<exists>a b. x = Some a \<and> y = Some b \<and> 2 \<le> length (h ! a) \<and> length (h ! a) = length (h ! b)) \<or>
   (covariance h s x y = (0, h, s) \<and> correlation h s x y = (Num 0, h, s))"
proof (cases "\<exists>a b. x = Some a \<and> y = Some b \<and> 2 \<le> length (h ! a) \<and> length (h ! a) = length (h ! b)")
  case True
  then show ?thesis by blast
next
  case False
  then have "x = None \<or> y = None \<or>
      (\<exists>a b. x = Some a \<and> y = Some b \<and> (length (h ! a) < 2 \<or> length (h ! a) \<noteq> length (h ! b)))"
    by (cases x; cases y) (auto simp: not_le)
  then show ?thesis
    by (simp add: covariance_invalid correlation_invalid)
qed

lemma coherent_covariance:
  assumes "coherent h s" "valid_arg h x" "valid_arg h y"
  shows "coherent (fst (snd (covariance h s x y))) (snd (snd (covariance h s x y)))"
  using association_cases [of x y h s]
proof
  assume "\<exists>a b. x = Some a \<and> y = Some b \<and> 2 \<le> length (h ! a) \<and> length (h ! a) = length (h ! b)"
  then obtain a b where ab: "x = Some a" "y = Some b" "2 \<le> length (h ! a)"
    "length (h ! a) = length (h ! b)" by blast
  with assms have v: "valid_ref h a" "valid_ref h b" by (simp_all add: valid_arg_def)
  have "h ! b \<noteq> []" using ab by auto
  then show ?thesis
    unfolding ab(1,2) covariance_valid [OF v ab(3,4)]
    by (simp add: coherent_def valid_ref_def stored_def nth_append)
next
  assume "covariance h s x y = (0, h, s) \<and> correlation h s x y = (Num 0, h, s)"
  then show ?thesis using assms by simp
qed

lemma correlation_valid_state:
  assumes "valid_ref h a" "valid_ref h b" "2 \<le> length (h ! a)" "length (h ! a) = length (h ! b)"
  shows "\<exists>r s'. correlation h s (Some a) (Some b) =
            (r, h @ [h ! a, h ! b, h ! a, h ! a, h ! b, h ! b], s') \<and>
            p_data s' = length h + 5 \<and> p_mean s' = arith_mean (h ! b) \<and>
            \<not> p_meanInvalidated s' \<and> p_stdInvalidated s' \<and> p_medianInvalidated s' \<and>
            p_modeInvalidated s' \<and> p_minInvalidated s' \<and> p_maxInvalidated s'"
proof -
  let ?h1 = "h @ [h ! a]"
  let ?h2 = "h @ [h ! a, h ! b]"
  have na: "h ! a \<noteq> []" and nb: "h ! b \<noteq> []" using assms by auto
  have l1: "length (h ! a) \<noteq> Suc 0" "length (h ! b) \<noteq> Suc 0" using assms by auto
  have v2: "valid_ref ?h2 a" "valid_ref ?h2 b"
    using assms(1,2) by (simp_all add: valid_ref_def)
  have e2: "?h2 ! a = h ! a" "?h2 ! b = h ! b" "?h1 ! b = h ! b"
    using assms(1,2) by (simp_all add: valid_ref_def nth_append)
  have c: "2 \<le> length (?h2 ! a)" "length (?h2 ! a) = length (?h2 ! b)"
    using assms e2 by simp_all
  show ?thesis
    using na nb l1 e2 assms(3,4)
    by (simp add: correlation_def Let_def set_data_Some std_invalidated stored_def
        covariance_valid [OF v2 c] nth_append del: js_sqrt.simps)
qed

lemma coherent_correlation:
  assumes "coherent h s" "valid_arg h x" "valid_arg h y"
  shows "coherent (fst (snd (correlation h s x y))) (snd (snd (correlation h s x y)))"
  using association_cases [of x y h s]
proof
  assume "\<exists>a b. x = Some a \<and> y = Some b \<and> 2 \<le> length (h ! a) \<and> length (h ! a) = length (h ! b)"
  then obtain a b where ab: "x = Some a" "y = Some b" "2 \<le> length (h ! a)"
    "length (h ! a) = length (h ! b)" by blast
  with assms have v: "valid_ref h a" "valid_ref h b" by (simp_all add: valid_arg_def)
  have nb: "h ! b \<noteq> []" using ab by auto
  from correlation_valid_state [OF v ab(3,4), of s]
  obtain r s' where r: "correlation h s (Some a) (Some b) =
            (r, h @ [h ! a, h ! b, h ! a, h ! a, h ! b, h ! b], s')"
            "p_data s' = length h + 5" "p_mean s' = arith_mean (h ! b)"
            "\<not> p_meanInvalidated s'" "p_stdInvalidated s'" "p_medianInvalidated s'"
            "p_modeInvalidated s'" by blast
  show ?thesis
    unfolding ab(1,2) using r nb
    by (simp add: coherent_def valid_ref_def stored_def nth_append)
next
  assume "covariance h s x y = (0, h, s) \<and> correlation h s x y = (Num 0, h, s)"
  then show ?thesis using assms by simp
qed

lemma pass_cases:
  "pass h x = (h, None) \<and> x = None \<or>
   (\<exists>xs. x = Some xs \<and> pass h x = (h @ [xs], Some (length h)))"
  by (cases x) (simp_all add: alloc_def)

lemma valid_arg_pass: "valid_arg (fst (pass h x)) (snd (pass h x))"
  using pass_cases [of h x] by (auto simp: valid_arg_def valid_ref_def)

lemma coherent_pass: "coherent h s \<Longrightarrow> coherent (fst (pass h x)) s"
  using pass_cases [of h x] by (auto simp: coherent_extend)

lemma valid_arg_extend: "valid_arg h x \<Longrightarrow> valid_arg (h @ e) x"
  by (cases x) (simp_all add: valid_arg_def valid_ref_def)

lemma valid_arg_pass_keep: "valid_arg h r \<Longrightarrow> valid_arg (fst (pass h x)) r"
  using pass_cases [of h x] by (auto simp: valid_arg_extend)

lemma coherent_exec: "coherent h s \<Longrightarrow> coherent (fst (exec h s c)) (snd (exec h s c))"
proof (cases c)
  case (C_assign x)
  assume "coherent h s"
  then show ?thesis using C_assign
    by (simp add: split_beta coherent_set_data coherent_pass)
next
  case (C_covariance x y)
  assume c: "coherent h s"
  let ?h1 = "fst (pass h x)" and ?rx = "snd (pass h x)"
  let ?h2 = "fst (pass ?h1 y)" and ?ry = "snd (pass ?h1 y)"
  have "coherent ?h2 s" using c by (simp add: coherent_pass)
  moreover have "valid_arg ?h2 ?rx" by (simp add: valid_arg_pass valid_arg_pass_keep)
  moreover have "valid_arg ?h2 ?ry" by (simp add: valid_arg_pass)
  ultimately show ?thesis using C_covariance
    by (simp add: split_beta coherent_covariance)
next
  case (C_correlation x y)
  assume c: "coherent h s"
  let ?h1 = "fst (pass h x)" and ?rx = "snd (pass h x)"
  let ?h2 = "fst (pass ?h1 y)" and ?ry = "snd (pass ?h1 y)"
  have "coherent ?h2 s" using c by (simp add: coherent_pass)
  moreover have "valid_arg ?h2 ?rx" by (simp add: valid_arg_pass valid_arg_pass_keep)
  moreover have "valid_arg ?h2 ?ry" by (simp add: valid_arg_pass)
  ultimately show ?thesis using C_correlation
    by (simp add: split_beta coherent_correlation)
qed (simp_all add: coherent_min coherent_max coherent_mean coherent_std coherent_median
      coherent_mode cv_snd skewness_snd kurtosis_snd getConfidenceInterval_snd)

lemma coherent_run: "coherent h s \<Longrightarrow> coherent (fst (run h s cs)) (snd (run h s cs))"
proof (induction cs arbitrary: h s)
  case Nil
  then show ?case by simp
next
  case (Cons c cs)
  then show ?case
    using coherent_exec [of h s c] by (simp add: split_beta)
qed

lemma coherent_session: "coherent (fst (session cs)) (snd (session cs))"
  using coherent_run [OF coherent_constructor, of "[]" cs]
  by (simp add: session_def split_beta)

subsection \<open>What the cached getters return in a session\<close>

lemma parseInt_toString_integer: "plain_integer x \<Longrightarrow> parseInt_toString x = x"
proof -
  assume p: "plain_integer x"
  then obtain k :: int where k: "x = of_int k" unfolding plain_integer_def by metis
  have "k = 0 \<or> 1 \<le> \<bar>k\<bar>" by linarith
  then have "x = 0 \<or> 1 \<le> \<bar>x\<bar>" unfolding k by (metis of_int_0 of_int_1_le_iff of_int_abs)
  then have "plain_decimal x" using p by (auto simp: plain_decimal_def plain_integer_def)
  then show ?thesis by (simp add: parseInt_toString_def k)
qed

lemma for_in_keys_ordered:
  "sorted_wrt (for_in_before xs) (for_in_keys (count_loop xs []))"
proof -
  let ?K = "map fst (count_loop xs [])"
  let ?A = "sort (filter is_array_index ?K)"
  let ?B = "filter (\<lambda>k. \<not> is_array_index k) ?K"
  have "sorted_wrt (\<le>) ?A" by simp
  then have a: "sorted_wrt (for_in_before xs) ?A"
    by (rule sorted_wrt_mono_rel [rotated]) (auto simp: for_in_before_def)
  have "sorted_wrt (\<lambda>a b. first_index xs a < first_index xs b) ?B"
    by (intro sorted_wrt_filter keys_first_occurrence_order)
  then have b: "sorted_wrt (for_in_before xs) ?B"
    by (rule sorted_wrt_mono_rel [rotated]) (auto simp: for_in_before_def)
  have c: "\<forall>x\<in>set ?A. \<forall>y\<in>set ?B. for_in_before xs x y"
    by (auto simp: for_in_before_def)
  show ?thesis
    unfolding for_in_keys_def sorted_wrt_append using a b c by blast
qed

lemma mode_value_first_max:
  assumes "xs \<noteq> []"
  shows "\<exists>k\<in>set xs. mode_value xs = parseInt_toString k \<and>
           (\<forall>y\<in>set xs. count_list xs y \<le> count_list xs k) \<and>
           (\<forall>y\<in>set xs. count_list xs y = count_list xs k \<and> y \<noteq> k \<longrightarrow> for_in_before xs k y)"
proof -
  let ?H = "count_loop xs []"
  let ?ks = "for_in_keys ?H"
  have ks: "set ?ks = set xs" by (simp only: set_for_in_keys keys_count_loop) simp
  have cnt: "\<And>y. hash_get ?H y = int (count_list xs y)" by (simp add: hash_get_count_loop)
  obtain z where z: "z \<in> set xs" using assms by (cases xs) auto
  have "\<not> (\<forall>y\<in>set ?ks. hash_get ?H y \<le> - 1)"
    using z count_pos [OF z] ks cnt by auto
  with mode_loop_first_max [of ?ks ?H "- 1" 0]
  obtain pre k post where d: "?ks = pre @ k # post"
    "mode_loop ?ks ?H (- 1) 0 = parseInt_toString k"
    "\<forall>y\<in>set pre. hash_get ?H y < hash_get ?H k"
    "\<forall>y\<in>set post. hash_get ?H y \<le> hash_get ?H k" by blast
  have kin: "k \<in> set xs" using d(1) ks by (metis in_set_conv_decomp)
  have sets: "set xs = set pre \<union> {k} \<union> set post" using d(1) ks by (metis Un_insert_right list.simps(15) set_append sup_bot.right_neutral Un_assoc insert_is_Un)
  have mx: "\<forall>y\<in>set xs. count_list xs y \<le> count_list xs k"
    using d(3,4) sets cnt by auto
  have "sorted_wrt (for_in_before xs) (pre @ k # post)"
    using for_in_keys_ordered [of xs] d(1) by simp
  then have post: "\<forall>y\<in>set post. for_in_before xs k y"
    by (simp add: sorted_wrt_append)
  have tie: "\<forall>y\<in>set xs. count_list xs y = count_list xs k \<and> y \<noteq> k \<longrightarrow> for_in_before xs k y"
  proof (intro ballI impI)
    fix y assume y: "y \<in> set xs" "count_list xs y = count_list xs k \<and> y \<noteq> k"
    then have "y \<notin> set pre" using d(3) cnt by auto
    with y sets have "y \<in> set post" by auto
    with post show "for_in_before xs k y" by blast
  qed
  show ?thesis
    using kin d(2) mx tie unfolding mode_value_def Let_def by blast
qed

lemma mode_coherent:
  "coherent h s \<Longrightarrow>
   fst (mode h s) = (if stored h s = [] then 0 else mode_value (stored h s))"
  by (cases "p_modeInvalidated s"; cases "stored h s = []")
     (auto simp: mode_cached mode_empty mode_invalidated coherent_def)

lemma std_coherent:
  "coherent h s \<Longrightarrow>
   fst (std h s) = (if length (stored h s) = 1 then Num 0 else std_value (stored h s))"
  by (cases "p_stdInvalidated s"; cases "length (stored h s) = 1")
     (auto simp: std_cached std_single std_invalidated_value coherent_def)

text \<open>
  Claim C6. In every state a session reaches, \<open>std\<close> returns 0 for a stored sample of
  size 1 (the guard returns before any division), and otherwise the square root of
  \<open>s / (n - 1)\<close>, where \<open>s\<close> is the second component of Welford's recurrence run over
  the \<open>n\<close> elements from \<open>m = 0\<close>, \<open>s = 0\<close>. The result is a number, not NaN: the
  recurrence keeps \<open>s\<close> non-negative.
\<close>

theorem std_follows_welford:
  "fst (std (fst (session cs)) (snd (session cs))) =
     (let xs = stored (fst (session cs)) (snd (session cs)); n = length xs
      in if n = 1 then Num 0
         else Num (sqrt (snd (welford_spec xs n) / (real n - 1))))"
  using std_coherent [OF coherent_session, of cs]
  by (simp add: Let_def std_value_spec)

text \<open>
  Claim C5, amended. In every state a session reaches, \<open>mode\<close> returns 0 for the empty
  sample; for a non-empty sample of integers of magnitude below \<open>1e21\<close> it returns a
  sample value \<open>m\<close> of maximal count, and every other sample value \<open>y\<close> of the same
  count comes after \<open>m\<close> in the enumeration order of the count table: if \<open>m\<close> is an
  array index (an integer in \<open>0 .. 2^32 - 2\<close>) then \<open>y\<close> is a larger array index or no
  array index; otherwise \<open>y\<close> is no array index either and first occurs later in the
  sample than \<open>m\<close>.
\<close>

theorem mode_reports:
  "let h = fst (session cs); s = snd (session cs); xs = stored h s; m = fst (mode h s)
   in (xs = [] \<longrightarrow> m = 0) \<and>
      (xs \<noteq> [] \<and> (\<forall>x\<in>set xs. plain_integer x) \<longrightarrow>
         m \<in> set xs \<and>
         (\<forall>y\<in>set xs. count_list xs y \<le> count_list xs m) \<and>
         (\<forall>y\<in>set xs. count_list xs y = count_list xs m \<and> y \<noteq> m \<longrightarrow>
            (if is_array_index m then (is_array_index y \<longrightarrow> m < y)
             else \<not> is_array_index y \<and> first_index xs m < first_index xs y)))"
proof -
  let ?h = "fst (session cs)" and ?s = "snd (session cs)"
  let ?xs = "stored ?h ?s"
  have m: "fst (mode ?h ?s) = (if ?xs = [] then 0 else mode_value ?xs)"
    by (rule mode_coherent [OF coherent_session])
  have "?xs \<noteq> [] \<and> (\<forall>x\<in>set ?xs. plain_integer x) \<longrightarrow>
         mode_value ?xs \<in> set ?xs \<and>
         (\<forall>y\<in>set ?xs. count_list ?xs y \<le> count_list ?xs (mode_value ?xs)) \<and>
         (\<forall>y\<in>set ?xs. count_list ?xs y = count_list ?xs (mode_value ?xs) \<and> y \<noteq> mode_value ?xs \<longrightarrow>
            (if is_array_index (mode_value ?xs) then (is_array_index y \<longrightarrow> mode_value ?xs < y)
             else \<not> is_array_index y \<and> first_index ?xs (mode_value ?xs) < first_index ?xs y))"
  proof
    assume a: "?xs \<noteq> [] \<and> (\<forall>x\<in>set ?xs. plain_integer x)"
    then obtain k where k: "k \<in> set ?xs" "mode_value ?xs = parseInt_toString k"
      "\<forall>y\<in>set ?xs. count_list ?xs y \<le> count_list ?xs k"
      "\<forall>y\<in>set ?xs. count_list ?xs y = count_list ?xs k \<and> y \<noteq> k \<longrightarrow> for_in_before ?xs k y"
      using mode_value_first_max [of ?xs] by blast
    have e: "mode_value ?xs = k" using k(1,2) a by (simp add: parseInt_toString_integer)
    show "mode_value ?xs \<in> set ?xs \<and>
         (\<forall>y\<in>set ?xs. count_list ?xs y \<le> count_list ?xs (mode_value ?xs)) \<and>
         (\<forall>y\<in>set ?xs. count_list ?xs y = count_list ?xs (mode_value ?xs) \<and> y \<noteq> mode_value ?xs \<longrightarrow>
            (if is_array_index (mode_value ?xs) then (is_array_index y \<longrightarrow> mode_value ?xs < y)
             else \<not> is_array_index y \<and> first_index ?xs (mode_value ?xs) < first_index ?xs y))"
      unfolding e using k(1,3,4) by (auto simp: for_in_before_def split: if_splits)
  qed
  then show ?thesis using m by (simp add: Let_def)
qed

subsection \<open>The invalidation flags under queries\<close>

lemma flags_kept_refl: "flags_kept s s"
  by (simp add: flags_kept_def)

lemma flags_kept_trans: "flags_kept s s' \<Longrightarrow> flags_kept s' s'' \<Longrightarrow> flags_kept s s''"
  by (auto simp: flags_kept_def)

lemma flags_kept_mean: "flags_kept s (snd (mean h s))"
  by (auto simp: flags_kept_def mean_def Let_def split: list.splits)

lemma flags_kept_std: "flags_kept s (snd (std h s))"
  by (auto simp: flags_kept_def std_def Let_def)

lemma flags_kept_median: "flags_kept s (snd (median h s))"
  by (auto simp: flags_kept_def median_def Let_def)

lemma flags_kept_mode: "flags_kept s (snd (mode h s))"
  by (auto simp: flags_kept_def mode_def Let_def)

lemma flags_kept_min: "flags_kept s (snd (min_ds h s))"
  by (auto simp: flags_kept_def min_ds_def Let_def)

lemma flags_kept_max: "flags_kept s (snd (max_ds h s))"
  by (auto simp: flags_kept_def max_ds_def Let_def)

lemma flags_kept_mean_std: "flags_kept s (snd (mean h (snd (std h s))))"
  using flags_kept_trans [OF flags_kept_std flags_kept_mean] .

lemma flags_kept_std_mean: "flags_kept s (snd (std h (snd (mean h s))))"
  using flags_kept_trans [OF flags_kept_mean flags_kept_std] .

lemma exec_no_assignment: "\<not> assigns c \<Longrightarrow> flags_kept s (snd (exec h s c))"
proof (cases c)
  case (C_assign x)
  assume "\<not> assigns c"
  then have "x = None \<or> x = Some []" using C_assign by (cases x) auto
  then show ?thesis using C_assign
    by (auto simp: alloc_def set_data_None set_data_empty flags_kept_refl)
next
  case (C_covariance x y)
  assume n: "\<not> assigns c"
  have "snd (snd (covariance (fst (pass (fst (pass h x)) y)) s (snd (pass h x))
      (snd (pass (fst (pass h x)) y)))) = s"
  proof (cases x)
    case None
    then show ?thesis by (simp add: covariance_invalid)
  next
    case (Some xs)
    note sx = this
    show ?thesis
    proof (cases y)
      case None
      then show ?thesis by (simp add: covariance_invalid)
    next
      case (Some ys)
      then have "length xs < 2 \<or> length xs \<noteq> length ys" using n sx C_covariance by auto
      then show ?thesis using sx Some
        by (simp add: alloc_def covariance_def nth_append)
    qed
  qed
  then show ?thesis using C_covariance by (simp add: split_beta flags_kept_refl)
next
  case (C_correlation x y)
  assume n: "\<not> assigns c"
  have "snd (snd (correlation (fst (pass (fst (pass h x)) y)) s (snd (pass h x))
      (snd (pass (fst (pass h x)) y)))) = s"
  proof (cases x)
    case None
    then show ?thesis by (simp add: correlation_invalid)
  next
    case (Some xs)
    note sx = this
    show ?thesis
    proof (cases y)
      case None
      then show ?thesis by (simp add: correlation_invalid)
    next
      case (Some ys)
      then have "length xs < 2 \<or> length xs \<noteq> length ys" using n sx C_correlation by auto
      then show ?thesis using sx Some
        by (simp add: alloc_def correlation_def nth_append)
    qed
  qed
  then show ?thesis using C_correlation by (simp add: split_beta flags_kept_refl)
qed (simp_all add: flags_kept_min flags_kept_max flags_kept_mean flags_kept_std
      flags_kept_median flags_kept_mode cv_snd skewness_snd kurtosis_snd
      getConfidenceInterval_snd flags_kept_mean_std flags_kept_std_mean flags_kept_refl)

lemma run_no_assignment:
  "\<forall>c\<in>set cs. \<not> assigns c \<Longrightarrow> flags_kept s (snd (run h s cs))"
proof (induction cs arbitrary: h s)
  case Nil
  then show ?case by (simp add: flags_kept_refl)
next
  case (Cons c cs)
  have "flags_kept s (snd (exec h s c))" using Cons.prems by (simp add: exec_no_assignment)
  moreover have "flags_kept (snd (exec h s c)) (snd (run (fst (exec h s c)) (snd (exec h s c)) cs))"
    using Cons.prems by (intro Cons.IH) simp
  ultimately show ?case
    by (simp add: split_beta flags_kept_trans)
qed

text \<open>
  Claim C1, amended. On a non-empty stored sample (of a size other than 1 for the
  standard deviation) a query recomputes the cached value if and only if the flag of its
  statistic is true: then it computes the statistic of the stored sample, stores it in
  the cache and returns it, and with the flag false it returns the cached value and
  leaves the state as it is. For mean, standard deviation, median and mode the
  recomputation sets the flag false, and a flag that is false stays false through every
  sequence of calls none of which makes a successful assignment. On an empty sample (of
  size 1 for the standard deviation) a query leaves the state, the flag included, as it
  is, and it returns 0: \<open>min\<close> and \<open>max\<close> in any state, the others whenever their flag
  is true, which it is in every state a session reaches with such a sample.
\<close>

theorem cached_query_recomputes_iff_invalidated:
  "(stored h s \<noteq> [] \<longrightarrow>
      mean h s =
        (if p_meanInvalidated s
         then (arith_mean (stored h s),
               s\<lparr> p_mean := arith_mean (stored h s), p_meanInvalidated := False \<rparr>)
         else (p_mean s, s)) \<and>
      median h s =
        (if p_medianInvalidated s
         then (median_sorted (sort (stored h s)),
               s\<lparr> p_median := median_sorted (sort (stored h s)),
                  p_medianInvalidated := False \<rparr>)
         else (p_median s, s)) \<and>
      mode h s =
        (if p_modeInvalidated s
         then (mode_value (stored h s),
               s\<lparr> p_mode := mode_value (stored h s), p_modeInvalidated := False \<rparr>)
         else (p_mode s, s))) \<and>
   (length (stored h s) \<noteq> 1 \<longrightarrow>
      std h s =
        (if p_stdInvalidated s
         then (std_value (stored h s),
               s\<lparr> p_std := std_value (stored h s), p_stdInvalidated := False \<rparr>)
         else (p_std s, s))) \<and>
   (stored h s \<noteq> [] \<longrightarrow>
      (p_minInvalidated s \<longrightarrow>
         fst (min_ds h s) = min_loop (stored h s) MAX_VALUE \<and>
         p_min (snd (min_ds h s)) = min_loop (stored h s) MAX_VALUE) \<and>
      (\<not> p_minInvalidated s \<longrightarrow> min_ds h s = (p_min s, s)) \<and>
      (p_maxInvalidated s \<longrightarrow>
         fst (max_ds h s) = max_loop (stored h s) MIN_VALUE \<and>
         p_max (snd (max_ds h s)) = max_loop (stored h s) MIN_VALUE) \<and>
      (\<not> p_maxInvalidated s \<longrightarrow> max_ds h s = (p_max s, s))) \<and>
   (stored h s = [] \<longrightarrow>
      snd (mean h s) = s \<and> snd (median h s) = s \<and> snd (mode h s) = s \<and>
      snd (min_ds h s) = s \<and> snd (max_ds h s) = s) \<and>
   (length (stored h s) = 1 \<longrightarrow> snd (std h s) = s) \<and>
   (stored h s = [] \<longrightarrow>
      min_ds h s = (0, s) \<and> max_ds h s = (0, s) \<and>
      (p_meanInvalidated s \<longrightarrow> mean h s = (0, s)) \<and>
      (p_medianInvalidated s \<longrightarrow> median h s = (0, s)) \<and>
      (p_modeInvalidated s \<longrightarrow> mode h s = (0, s))) \<and>
   (length (stored h s) = 1 \<and> p_stdInvalidated s \<longrightarrow> std h s = (Num 0, s)) \<and>
   (stored (fst (session cs0)) (snd (session cs0)) = [] \<longrightarrow>
      mean (fst (session cs0)) (snd (session cs0)) = (0, snd (session cs0)) \<and>
      median (fst (session cs0)) (snd (session cs0)) = (0, snd (session cs0)) \<and>
      mode (fst (session cs0)) (snd (session cs0)) = (0, snd (session cs0)) \<and>
      min_ds (fst (session cs0)) (snd (session cs0)) = (0, snd (session cs0)) \<and>
      max_ds (fst (session cs0)) (snd (session cs0)) = (0, snd (session cs0))) \<and>
   (length (stored (fst (session cs0)) (snd (session cs0))) = 1 \<longrightarrow>
      std (fst (session cs0)) (snd (session cs0)) = (Num 0, snd (session cs0))) \<and>
   ((\<forall>c\<in>set cs. \<not> assigns c) \<longrightarrow>
      (\<not> p_meanInvalidated s \<longrightarrow> \<not> p_meanInvalidated (snd (run h s cs))) \<and>
      (\<not> p_stdInvalidated s \<longrightarrow> \<not> p_stdInvalidated (snd (run h s cs))) \<and>
      (\<not> p_medianInvalidated s \<longrightarrow> \<not> p_medianInvalidated (snd (run h s cs))) \<and>
      (\<not> p_modeInvalidated s \<longrightarrow> \<not> p_modeInvalidated (snd (run h s cs))))"
proof -
  have a: "stored h s \<noteq> [] \<longrightarrow>
      mean h s =
        (if p_meanInvalidated s
         then (arith_mean (stored h s),
               s\<lparr> p_mean := arith_mean (stored h s), p_meanInvalidated := False \<rparr>)
         else (p_mean s, s)) \<and>
      median h s =
        (if p_medianInvalidated s
         then (median_sorted (sort (stored h s)),
               s\<lparr> p_median := median_sorted (sort (stored h s)),
                  p_medianInvalidated := False \<rparr>)
         else (p_median s, s)) \<and>
      mode h s =
        (if p_modeInvalidated s
         then (mode_value (stored h s),
               s\<lparr> p_mode := mode_value (stored h s), p_modeInvalidated := False \<rparr>)
         else (p_mode s, s))"
    by (simp add: mean_invalidated mean_cached median_invalidated median_cached
        mode_invalidated mode_cached)
  have b: "length (stored h s) \<noteq> 1 \<longrightarrow>
      std h s =
        (if p_stdInvalidated s
         then (std_value (stored h s),
               s\<lparr> p_std := std_value (stored h s), p_stdInvalidated := False \<rparr>)
         else (p_std s, s))"
    by (simp add: std_invalidated_value std_cached)
  have f: "stored h s \<noteq> [] \<longrightarrow>
      (p_minInvalidated s \<longrightarrow>
         fst (min_ds h s) = min_loop (stored h s) MAX_VALUE \<and>
         p_min (snd (min_ds h s)) = min_loop (stored h s) MAX_VALUE) \<and>
      (\<not> p_minInvalidated s \<longrightarrow> min_ds h s = (p_min s, s)) \<and>
      (p_maxInvalidated s \<longrightarrow>
         fst (max_ds h s) = max_loop (stored h s) MIN_VALUE \<and>
         p_max (snd (max_ds h s)) = max_loop (stored h s) MIN_VALUE) \<and>
      (\<not> p_maxInvalidated s \<longrightarrow> max_ds h s = (p_max s, s))"
    by (simp add: min_ds_def max_ds_def)
  have c: "stored h s = [] \<longrightarrow>
      snd (mean h s) = s \<and> snd (median h s) = s \<and> snd (mode h s) = s \<and>
      snd (min_ds h s) = s \<and> snd (max_ds h s) = s"
    by (simp add: mean_def median_def mode_def min_ds_def max_ds_def)
  have d: "length (stored h s) = 1 \<longrightarrow> snd (std h s) = s"
    by (simp add: std_def)
  have g: "stored h s = [] \<longrightarrow>
      min_ds h s = (0, s) \<and> max_ds h s = (0, s) \<and>
      (p_meanInvalidated s \<longrightarrow> mean h s = (0, s)) \<and>
      (p_medianInvalidated s \<longrightarrow> median h s = (0, s)) \<and>
      (p_modeInvalidated s \<longrightarrow> mode h s = (0, s))"
    by (simp add: mean_def median_def mode_def min_ds_def max_ds_def)
  have i: "length (stored h s) = 1 \<and> p_stdInvalidated s \<longrightarrow> std h s = (Num 0, s)"
    by (simp add: std_def)
  let ?H = "fst (session cs0)" and ?S = "snd (session cs0)"
  have co: "coherent ?H ?S" by (rule coherent_session)
  have j: "stored ?H ?S = [] \<longrightarrow>
      mean ?H ?S = (0, ?S) \<and> median ?H ?S = (0, ?S) \<and> mode ?H ?S = (0, ?S) \<and>
      min_ds ?H ?S = (0, ?S) \<and> max_ds ?H ?S = (0, ?S)"
  proof
    assume em: "stored ?H ?S = []"
    then have "p_meanInvalidated ?S \<and> p_medianInvalidated ?S \<and> p_modeInvalidated ?S"
      using co unfolding coherent_def by blast
    then show "mean ?H ?S = (0, ?S) \<and> median ?H ?S = (0, ?S) \<and> mode ?H ?S = (0, ?S) \<and>
      min_ds ?H ?S = (0, ?S) \<and> max_ds ?H ?S = (0, ?S)"
      using em by (simp add: mean_def median_def mode_def min_ds_def max_ds_def)
  qed
  have k: "length (stored ?H ?S) = 1 \<longrightarrow> std ?H ?S = (Num 0, ?S)"
  proof
    assume one: "length (stored ?H ?S) = 1"
    then have "p_stdInvalidated ?S" using co unfolding coherent_def by blast
    then show "std ?H ?S = (Num 0, ?S)" using one by (simp add: std_def)
  qed
  have e: "(\<forall>c\<in>set cs. \<not> assigns c) \<longrightarrow>
      (\<not> p_meanInvalidated s \<longrightarrow> \<not> p_meanInvalidated (snd (run h s cs))) \<and>
      (\<not> p_stdInvalidated s \<longrightarrow> \<not> p_stdInvalidated (snd (run h s cs))) \<and>
      (\<not> p_medianInvalidated s \<longrightarrow> \<not> p_medianInvalidated (snd (run h s cs))) \<and>
      (\<not> p_modeInvalidated s \<longrightarrow> \<not> p_modeInvalidated (snd (run h s cs)))"
    using run_no_assignment [of cs s h] by (auto simp: flags_kept_def)
  from a b f c d g i j k e show ?thesis by (intro conjI)
qed

subsection \<open>Concrete sessions\<close>

theorem std_follows_welford_witness:
  "fst (std (fst (loaded [1, 3])) (snd (loaded [1, 3]))) = Num (sqrt 2) \<and>
   fst (std (fst (loaded [5])) (snd (loaded [5]))) = Num 0"
proof -
  have w: "welford_spec [1, 3] 2 = (2, 2)"
    by (simp add: numeral_2_eq_2)
  have a: "fst (std (fst (loaded [1, 3])) (snd (loaded [1, 3]))) = Num (sqrt 2)"
    using std_follows_welford [of "[C_assign (Some [1, 3])]", folded loaded_def] w
    by (simp add: stored_loaded)
  have b: "fst (std (fst (loaded [5])) (snd (loaded [5]))) = Num 0"
    using std_follows_welford [of "[C_assign (Some [5])]", folded loaded_def]
    by (simp add: stored_loaded)
  from a b show ?thesis by simp
qed

theorem mode_reports_witness:
  "stored (fst (session [])) (snd (session [])) = [] \<and>
   fst (mode (fst (session [])) (snd (session []))) = 0 \<and>
   stored (fst (loaded [5, 3, - 1])) (snd (loaded [5, 3, - 1])) = [5, 3, - 1] \<and>
   list_all plain_integer [5, 3, - 1] \<and>
   fst (mode (fst (loaded [5, 3, - 1])) (snd (loaded [5, 3, - 1]))) \<in> set [5, 3, - 1] \<and>
   list_all
     (\<lambda>y :: real. count_list [5, 3, - 1] y
            \<le> count_list [5, 3, - 1]
                 (fst (mode (fst (loaded [5, 3, - 1])) (snd (loaded [5, 3, - 1])))))
     [5, 3, - 1] \<and>
   fst (mode (fst (loaded [5, 3, - 1])) (snd (loaded [5, 3, - 1]))) = 3"
proof -
  let ?xs = "[5, 3, - 1] :: real list"
  let ?h = "fst (loaded ?xs)" and ?s = "snd (loaded ?xs)"
  have e: "stored (fst (session [])) (snd (session [])) = []"
    by (simp add: session_def constructor_def alloc_def stored_def)
  have z: "fst (mode (fst (session [])) (snd (session []))) = 0"
    using mode_reports [of "[]"] e by (simp add: Let_def)
  have st: "stored ?h ?s = ?xs" by (simp add: stored_loaded)
  have pl: "?xs \<noteq> [] \<and> (\<forall>x\<in>set ?xs. plain_integer x)"
    by (simp add: plain_integer_def)
  have m: "fst (mode ?h ?s) \<in> set ?xs \<and>
      (\<forall>y\<in>set ?xs. count_list ?xs y \<le> count_list ?xs (fst (mode ?h ?s)))"
    using mode_reports [of "[C_assign (Some ?xs)]", folded loaded_def] pl
    unfolding Let_def st by blast
  have v: "fst (mode ?h ?s) = 3"
    by (simp add: loaded_eq mode_def stored_def hasOwnProperty_def for_in_keys_def
        is_array_index_def parseInt_toString_def plain_decimal_def)
  from e z st pl m v show ?thesis by (simp add: list_all_iff)
qed

text \<open>
  Claim C5 as stated lets the earliest first occurrence win a tie. On the sample
  \<open>[5, 3]\<close>, where both values occur once and \<open>5\<close> occurs first, \<open>mode\<close> returns \<open>3\<close>:
  the keys \<^verbatim>\<open>"5"\<close> and \<^verbatim>\<open>"3"\<close> are array indices, which \<^verbatim>\<open>for ... in\<close> visits in
  ascending order.
\<close>

theorem mode_tie_not_first_occurrence:
  "fst (mode (fst (loaded [5, 3])) (snd (loaded [5, 3]))) = 3 \<and> mode_spec [5, 3] = 5"
  by (simp add: loaded_eq mode_def stored_def hasOwnProperty_def for_in_keys_def
      is_array_index_def parseInt_toString_def plain_decimal_def mode_spec_def)

text \<open>The selected key goes through \<^verbatim>\<open>parseInt\<close>: the mode of \<open>[1.5, 1.5, 2]\<close> is
  reported as \<open>1\<close>.\<close>

lemma mode_truncates_fraction:
  "fst (mode (fst (loaded [3 / 2, 3 / 2, 2])) (snd (loaded [3 / 2, 3 / 2, 2]))) = 1"
  by (simp add: loaded_eq mode_def stored_def hasOwnProperty_def for_in_keys_def
      is_array_index_def parseInt_toString_def plain_decimal_def)

text \<open>The getters \<open>min\<close> and \<open>max\<close> leave their flags as they find them.\<close>

lemma min_max_flags_never_cleared:
  "p_minInvalidated (snd (min_ds h s)) = p_minInvalidated s \<and>
   p_maxInvalidated (snd (max_ds h s)) = p_maxInvalidated s"
  by (simp add: min_ds_def max_ds_def Let_def)

text \<open>
  Claim C1 as stated has every query with a true flag recompute and clear the flag. On
  the fresh engine the flag of the mean is true and \<open>mean\<close> returns 0 without writing
  the state; on the sample \<open>[5]\<close> the flag of the standard deviation is true and \<open>std\<close>
  returns 0 without writing the state. In both the flag is still true afterwards.
\<close>

theorem guarded_query_keeps_flag:
  "p_meanInvalidated (snd (session [])) \<and>
   mean (fst (session [])) (snd (session [])) = (0, snd (session [])) \<and>
   p_stdInvalidated (snd (loaded [5])) \<and>
   std (fst (loaded [5])) (snd (loaded [5])) = (Num 0, snd (loaded [5]))"
  by (simp add: loaded_eq session_def constructor_def alloc_def mean_def std_def stored_def)

theorem cached_query_recomputes_iff_invalidated_witness:
  "stored (fst (loaded [1, 3])) (snd (loaded [1, 3])) \<noteq> [] \<and>
   p_meanInvalidated (snd (loaded [1, 3])) \<and>
   mean (fst (loaded [1, 3])) (snd (loaded [1, 3])) =
     (2, (snd (loaded [1, 3]))\<lparr> p_mean := 2, p_meanInvalidated := False \<rparr>) \<and>
   list_all (\<lambda>c. \<not> assigns c)
     [C_mean, C_min, C_std, C_assign None, C_assign (Some []), C_kurtosis] \<and>
   \<not> p_meanInvalidated
       (snd (run (fst (loaded [1, 3]))
               ((snd (loaded [1, 3]))\<lparr> p_mean := 2, p_meanInvalidated := False \<rparr>)
               [C_mean, C_min, C_std, C_assign None, C_assign (Some []), C_kurtosis])) \<and>
   stored (fst (session [])) (snd (session [])) = [] \<and>
   mean (fst (session [])) (snd (session [])) = (0, snd (session [])) \<and>
   min_ds (fst (session [])) (snd (session [])) = (0, snd (session [])) \<and>
   length (stored (fst (session [C_assign (Some [5])])) (snd (session [C_assign (Some [5])]))) = 1 \<and>
   std (fst (session [C_assign (Some [5])])) (snd (session [C_assign (Some [5])]))
     = (Num 0, snd (session [C_assign (Some [5])]))"
proof -
  let ?h = "fst (loaded [1, 3])" and ?s = "snd (loaded [1, 3])"
  let ?s1 = "?s\<lparr> p_mean := 2, p_meanInvalidated := False \<rparr>"
  let ?cs = "[C_mean, C_min, C_std, C_assign None, C_assign (Some []), C_kurtosis]"
  have st: "stored ?h ?s \<noteq> []" "stored ?h ?s = [1, 3]" by (simp_all add: stored_loaded)
  have fl: "p_meanInvalidated ?s" by (simp add: loaded_eq)
  have am: "arith_mean [1, 3] = 2" by (simp add: arith_mean_def)
  have m: "mean ?h ?s = (2, ?s1)"
    using cached_query_recomputes_iff_invalidated [of ?h ?s "[]" "[]"] st fl am by simp
  have na: "\<forall>c\<in>set ?cs. \<not> assigns c" by simp
  have f1: "\<not> p_meanInvalidated ?s1" by simp
  have k: "\<not> p_meanInvalidated (snd (run ?h ?s1 ?cs))"
    using cached_query_recomputes_iff_invalidated [of ?h ?s1 "[]" ?cs] na f1 by blast
  have e0: "stored (fst (session [])) (snd (session [])) = []"
    by (simp add: session_def constructor_def alloc_def stored_def)
  have z: "mean (fst (session [])) (snd (session [])) = (0, snd (session [])) \<and>
      min_ds (fst (session [])) (snd (session [])) = (0, snd (session []))"
    using cached_query_recomputes_iff_invalidated [of ?h ?s "[]" "[]"] e0 by blast
  have l1: "length (stored (fst (session [C_assign (Some [5])]))
      (snd (session [C_assign (Some [5])]))) = 1"
    using stored_loaded [of "[5]"] by (simp add: loaded_def)
  have sd: "std (fst (session [C_assign (Some [5])])) (snd (session [C_assign (Some [5])]))
      = (Num 0, snd (session [C_assign (Some [5])]))"
    using cached_query_recomputes_iff_invalidated [of ?h ?s "[C_assign (Some [5])]" "[]"] l1
    by blast
  from st fl m na k e0 z l1 sd show ?thesis by (simp add: list_all_iff)
qed

subsection \<open>Quantiles of every sample\<close>

text \<open>The loops of \<open>getQuantile\<close> are unfolded by hand from here on.\<close>

declare quantile_loop.simps [simp del] f_loop.simps [simp del]

lemma quantile_p_range: "1 / 100 \<le> quantile_p p0 \<and> quantile_p p0 \<le> 99 / 100"
  by (cases p0) (auto simp: quantile_p_def)

lemma f_loop_fill:
  "2 \<le> i \<Longrightarrow> i + 1 \<le> n \<Longrightarrow>
   f_loop i n n1 (None # replicate (i - 1) (Some NaN)) = None # replicate (n - 2) (Some NaN)"
proof (induction "n - i" arbitrary: i)
  case 0
  then show ?case by simp
next
  case (Suc k)
  show ?case
  proof (cases "i + 1 < n")
    case True
    have s: "sparse_set (None # replicate (i - 1) (Some NaN)) i
               (num_add (sparse_get (None # replicate (i - 1) (Some NaN)) (i - 1)) (Num n1))
             = None # replicate (i + 1 - 1) (Some NaN)"
      using Suc.prems(1)
      by (cases i) (auto simp: sparse_set_def sparse_get_def nth_Cons' replicate_append_same)
    have "k = n - (i + 1)" using Suc.hyps(2) by simp
    then have ih: "f_loop (i + 1) n n1 (None # replicate (i + 1 - 1) (Some NaN))
        = None # replicate (n - 2) (Some NaN)"
      using True Suc.prems by (intro Suc.hyps(1)) simp_all
    show ?thesis
      by (subst f_loop.simps) (simp only: True if_True s ih)
  next
    case False
    then have "n = i + 1" using Suc.prems by simp
    then show ?thesis using False by (subst f_loop.simps) simp
  qed
qed

lemma f_array:
  assumes "2 \<le> n"
  shows "sparse_push (f_loop 1 n n1 []) (Num 1) =
           (if n = 2 then [Some (Num 1)]
            else None # replicate (n - 2) (Some NaN) @ [Some (Num 1)])"
proof (cases "n = 2")
  case True
  then show ?thesis by (subst f_loop.simps) (simp add: sparse_push_def)
next
  case False
  with assms have n: "3 \<le> n" by simp
  have a: "sparse_set [] 1 (num_add (sparse_get [] (1 - 1)) (Num n1))
      = None # replicate (2 - 1) (Some NaN)"
    by (simp add: sparse_set_def sparse_get_def)
  have b: "(1 :: nat) + 1 < n" "2 < n" using n by simp_all
  have "f_loop 1 n n1 [] = f_loop 2 n n1 (None # replicate (2 - 1) (Some NaN))"
    by (subst f_loop.simps) (simp only: b if_True a one_add_one)
  also have "\<dots> = None # replicate (n - 2) (Some NaN)"
    using n by (intro f_loop_fill) simp_all
  finally show ?thesis using False by (simp add: sparse_push_def)
qed

text \<open>One step of the main loop pushes NaN when the level is below 1.\<close>

lemma f_built_get:
  assumes "2 \<le> n" "r + 1 < n"
  shows "sparse_get (f_built n) r = (if n = 2 then Num 1 else NaN)"
    and "n = 2 \<Longrightarrow> sparse_get (f_built n) (r + 1) = NaN"
  using assms
  by (auto simp: f_built_def sparse_get_def nth_Cons' nth_append)

lemma quantile_loop_NaN:
  assumes "2 \<le> n" "1 / 100 \<le> p" "p \<le> 99 / 100" "nQuant = \<lfloor>1 / p\<rfloor>" "q = real i * p"
  shows "quantile_loop i nQuant p (real n - 1) q (f_built n) d qs =
           qs @ replicate (nat (nQuant - 1 - int i)) NaN"
  using assms(5)
proof (induction "nat (nQuant - 1 - int i)" arbitrary: i q qs)
  case 0
  then have "\<not> int i < nQuant - 1" by simp
  then show ?case using 0 by (subst quantile_loop.simps) simp
next
  case (Suc k)
  then have lt: "int i < nQuant - 1" by simp
  let ?q = "q + p"
  have q': "?q = real (i + 1) * p" using Suc.prems by (simp add: algebra_simps)
  have "real_of_int nQuant \<le> 1 / p" using assms(4) by simp
  moreover have "real (i + 1) \<le> real_of_int nQuant - 1" using lt by linarith
  moreover have p0: "0 < p" using assms(2) by simp
  ultimately have "real (i + 1) * p \<le> (1 / p - 1) * p"
    by (intro mult_right_mono) simp_all
  also have "\<dots> = 1 - p" using p0 by (simp add: field_simps)
  finally have qle: "?q \<le> 1 - p" using q' by simp
  have q0: "0 \<le> ?q" using q' p0 by simp
  have n1: "0 < real n - 1" using assms(1) by simp
  have "?q * (real n - 1) < real n - 1"
    using qle p0 n1 by (simp add: mult_less_cancel_right2)
  then have "\<lfloor>?q * (real n - 1)\<rfloor> < int n - 1" by (simp add: floor_less_iff)
  moreover have "0 \<le> \<lfloor>?q * (real n - 1)\<rfloor>" using q0 n1 by simp
  ultimately have r: "nat \<lfloor>?q * (real n - 1)\<rfloor> + 1 < n" by linarith
  let ?r = "nat \<lfloor>?q * (real n - 1)\<rfloor>"
  have "1 / 100 \<le> 1 + (- q - p)" using qle assms(2) by linarith
  then have far: "\<not> \<bar>1 + (- q - p)\<bar> * 1000 < 1" by (simp add: abs_if)
  have k: "k = nat (nQuant - 1 - int (i + 1))" using Suc.hyps(2) by simp
  have step: "quantile_loop i nQuant p (real n - 1) q (f_built n) d qs =
      quantile_loop (i + 1) nQuant p (real n - 1) ?q (f_built n) d (qs @ [NaN])"
  proof (cases "n = 2")
    case True
    show ?thesis
      using lt far f_built_get [OF assms(1) r] True
      by (subst quantile_loop.simps) (simp add: Let_def num_sub_def)
  next
    case False
    show ?thesis
      using lt f_built_get(1) [OF assms(1) r] False
      by (subst quantile_loop.simps) (simp add: Let_def num_sub_def)
  qed
  have "nat (nQuant - 1 - int i) = Suc (nat (nQuant - 1 - int (i + 1)))" using lt by simp
  then show ?case
    unfolding step Suc.hyps(1) [OF k q']
    by (simp add: replicate_append_same)
qed

text \<open>For every sample of at least two values and every argument, \<open>getQuantile\<close>
  returns the smallest value, then NaN for each interior level, then the largest
  value.\<close>

lemma getQuantile_interior_NaN:
  assumes "2 \<le> length (stored h s)"
  shows "getQuantile h s p0 =
           Num (sort (stored h s) ! 0)
           # replicate (nat (\<lfloor>1 / quantile_p p0\<rfloor> - 1)) NaN
           @ [Num (sort (stored h s) ! (length (stored h s) - 1))]"
proof -
  let ?n = "length (stored h s)"
  have f: "sparse_push (f_loop 1 ?n (1 / (real ?n - 1)) []) (Num 1) = f_built ?n"
    using f_array [OF assms] by (simp add: f_built_def)
  have l: "quantile_loop 0 \<lfloor>1 / quantile_p p0\<rfloor> (quantile_p p0) (real ?n - 1) 0 (f_built ?n)
             (sort (stored h s)) [nth_num (sort (stored h s)) 0]
           = [nth_num (sort (stored h s)) 0]
             @ replicate (nat (\<lfloor>1 / quantile_p p0\<rfloor> - 1 - int 0)) NaN"
    using quantile_p_range [of p0]
    by (intro quantile_loop_NaN [OF assms]) simp_all
  have "\<not> ?n < 2" using assms by simp
  then show ?thesis
    unfolding getQuantile_def Let_def f l
    using assms by (auto simp: nth_num_def)
qed

subsection \<open>The ends of the five-number summary and the scans\<close>

lemma min_loop_fold: "min_loop xs m = fold min xs m"
  by (induction xs arbitrary: m) (auto simp: min_def)

lemma max_loop_fold: "max_loop xs m = fold max xs m"
  by (induction xs arbitrary: m) (auto simp: max_def)

lemma min_loop_Min: "min_loop xs m = Min (set (m # xs))"
  by (simp only: min_loop_fold Min.set_eq_fold)

lemma max_loop_Max: "max_loop xs m = Max (set (m # xs))"
  by (simp only: max_loop_fold Max.set_eq_fold)

lemma sorted_first_Min: "sorted ys \<Longrightarrow> ys \<noteq> [] \<Longrightarrow> ys ! 0 = Min (set ys)"
  by (cases ys) (auto intro!: Min_eqI [symmetric])

lemma sorted_last_Max: "sorted ys \<Longrightarrow> ys \<noteq> [] \<Longrightarrow> ys ! (length ys - 1) = Max (set ys)"
proof -
  assume s: "sorted ys" and n: "ys \<noteq> []"
  have "\<And>y. y \<in> set ys \<Longrightarrow> y \<le> ys ! (length ys - 1)"
  proof -
    fix y assume "y \<in> set ys"
    then obtain i where "i < length ys" "ys ! i = y" by (auto simp: in_set_conv_nth)
    then show "y \<le> ys ! (length ys - 1)"
      using sorted_nth_mono [OF s, of i "length ys - 1"] by auto
  qed
  moreover have "ys ! (length ys - 1) \<in> set ys" using n by simp
  ultimately show ?thesis by (intro Max_eqI [symmetric]) auto
qed

lemma fiveNumbers_ends:
  "stored h s \<noteq> [] \<Longrightarrow>
   fiveNumbers h s ! 0 = Min (set (stored h s)) \<and> fiveNumbers h s ! 4 = Max (set (stored h s))"
proof -
  assume n: "stored h s \<noteq> []"
  show ?thesis
  proof (cases "length (stored h s) = 1")
    case True
    then obtain x where "stored h s = [x]" by (cases "stored h s") auto
    then show ?thesis by (simp add: fiveNumbers_def)
  next
    case False
    let ?d = "sort (stored h s)"
    have dn: "?d \<noteq> []" using n by (metis length_0_conv length_sort)
    have "?d ! 0 = Min (set ?d)" "?d ! (length ?d - 1) = Max (set ?d)"
      using sorted_first_Min [OF sorted_sort dn] sorted_last_Max [OF sorted_sort dn] by blast+
    then show ?thesis
      using n False by (simp add: fiveNumbers_def Let_def split_beta)
  qed
qed

text \<open>With both flags true and no value above \<^verbatim>\<open>Number.MAX_VALUE\<close>, the first entry of
  the summary is \<open>min\<close>, and the last entry is \<open>max\<close> exactly when some value reaches
  \<^verbatim>\<open>Number.MIN_VALUE\<close>.\<close>

lemma summary_ends:
  assumes "stored h s \<noteq> []" "p_minInvalidated s" "p_maxInvalidated s"
    "\<forall>x\<in>set (stored h s). x \<le> MAX_VALUE"
  shows "fiveNumbers h s ! 0 = fst (min_ds h s)"
    and "(fiveNumbers h s ! 4 = fst (max_ds h s)) = (\<exists>x\<in>set (stored h s). MIN_VALUE \<le> x)"
proof -
  let ?xs = "stored h s"
  have mn: "fst (min_ds h s) = min MAX_VALUE (Min (set ?xs))"
    using assms(1,2) by (simp add: min_ds_def min_loop_Min)
  have mx: "fst (max_ds h s) = max MIN_VALUE (Max (set ?xs))"
    using assms(1,3) by (simp add: max_ds_def max_loop_Max)
  have "Min (set ?xs) \<le> MAX_VALUE" using assms(1,4) by (simp add: Min_le_iff)
  then show "fiveNumbers h s ! 0 = fst (min_ds h s)"
    using fiveNumbers_ends [OF assms(1)] mn by simp
  have "(MIN_VALUE \<le> Max (set ?xs)) = (\<exists>x\<in>set ?xs. MIN_VALUE \<le> x)"
    using assms(1) by (simp add: Max_ge_iff)
  then show "(fiveNumbers h s ! 4 = fst (max_ds h s)) = (\<exists>x\<in>set ?xs. MIN_VALUE \<le> x)"
    using fiveNumbers_ends [OF assms(1)] mx by (auto simp: max_def)
qed

text \<open>Both flags are true in every state a session reaches.\<close>

lemma getter_scans:
  "scans_invalidated (snd (min_ds h s)) = scans_invalidated s"
  "scans_invalidated (snd (max_ds h s)) = scans_invalidated s"
  "scans_invalidated (snd (mean h s)) = scans_invalidated s"
  "scans_invalidated (snd (std h s)) = scans_invalidated s"
  "scans_invalidated (snd (median h s)) = scans_invalidated s"
  "scans_invalidated (snd (mode h s)) = scans_invalidated s"
  by (simp_all add: scans_invalidated_def min_ds_def max_ds_def mean_def std_def median_def
      mode_def Let_def split: list.splits)

lemma set_data_scans:
  "scans_invalidated s \<Longrightarrow> scans_invalidated (snd (set_data h s r))"
  by (cases r) (auto simp: set_data_def slice_def alloc_def scans_invalidated_def)

lemma association_scans:
  assumes "scans_invalidated s" "valid_arg h x" "valid_arg h y"
  shows "scans_invalidated (snd (snd (covariance h s x y)))"
    and "scans_invalidated (snd (snd (correlation h s x y)))"
proof -
  from association_cases [of x y h s]
  have "scans_invalidated (snd (snd (covariance h s x y))) \<and>
        scans_invalidated (snd (snd (correlation h s x y)))"
  proof
    assume "\<exists>a b. x = Some a \<and> y = Some b \<and> 2 \<le> length (h ! a) \<and> length (h ! a) = length (h ! b)"
    then obtain a b where ab: "x = Some a" "y = Some b" "2 \<le> length (h ! a)"
      "length (h ! a) = length (h ! b)" by blast
    with assms have v: "valid_ref h a" "valid_ref h b" by (simp_all add: valid_arg_def)
    from correlation_valid_state [OF v ab(3,4), of s]
    obtain r s' where r: "correlation h s (Some a) (Some b) =
              (r, h @ [h ! a, h ! b, h ! a, h ! a, h ! b, h ! b], s')"
              "p_minInvalidated s'" "p_maxInvalidated s'" by blast
    show ?thesis
      unfolding ab(1,2) covariance_valid [OF v ab(3,4)] r(1)
      using r(2,3) by (simp add: scans_invalidated_def)
  next
    assume "covariance h s x y = (0, h, s) \<and> correlation h s x y = (Num 0, h, s)"
    then show ?thesis using assms(1) by simp
  qed
  then show "scans_invalidated (snd (snd (covariance h s x y)))"
    and "scans_invalidated (snd (snd (correlation h s x y)))" by simp_all
qed

lemma exec_scans: "scans_invalidated s \<Longrightarrow> scans_invalidated (snd (exec h s c))"
proof (cases c)
  case (C_covariance x y)
  assume c: "scans_invalidated s"
  have "valid_arg (fst (pass (fst (pass h x)) y)) (snd (pass h x))"
    "valid_arg (fst (pass (fst (pass h x)) y)) (snd (pass (fst (pass h x)) y))"
    by (simp_all add: valid_arg_pass valid_arg_pass_keep)
  then show ?thesis using C_covariance c
    by (simp add: split_beta association_scans)
next
  case (C_correlation x y)
  assume c: "scans_invalidated s"
  have "valid_arg (fst (pass (fst (pass h x)) y)) (snd (pass h x))"
    "valid_arg (fst (pass (fst (pass h x)) y)) (snd (pass (fst (pass h x)) y))"
    by (simp_all add: valid_arg_pass valid_arg_pass_keep)
  then show ?thesis using C_correlation c
    by (simp add: split_beta association_scans)
qed (simp_all add: split_beta set_data_scans getter_scans cv_snd skewness_snd kurtosis_snd
      getConfidenceInterval_snd)

lemma run_scans: "scans_invalidated s \<Longrightarrow> scans_invalidated (snd (run h s cs))"
proof (induction cs arbitrary: h s)
  case Nil
  then show ?case by simp
next
  case (Cons c cs)
  then show ?case using exec_scans [of s h c] by (simp add: split_beta)
qed

lemma session_scans: "scans_invalidated (snd (session cs))"
proof -
  have "scans_invalidated (snd (constructor []))"
    by (simp add: scans_invalidated_def constructor_def alloc_def)
  then show ?thesis
    by (simp add: session_def split_beta run_scans)
qed

text \<open>So in every state a session reaches with a non-empty sample of values up to
  \<^verbatim>\<open>Number.MAX_VALUE\<close>, the summary starts with \<open>min\<close>, and it ends with \<open>max\<close> exactly
  when the sample has a value that reaches \<^verbatim>\<open>Number.MIN_VALUE\<close>.\<close>

lemma session_summary_ends:
  assumes "stored (fst (session cs)) (snd (session cs)) \<noteq> []"
    "\<forall>x\<in>set (stored (fst (session cs)) (snd (session cs))). x \<le> MAX_VALUE"
  shows "fiveNumbers (fst (session cs)) (snd (session cs)) ! 0
           = fst (min_ds (fst (session cs)) (snd (session cs)))"
    and "(fiveNumbers (fst (session cs)) (snd (session cs)) ! 4
            = fst (max_ds (fst (session cs)) (snd (session cs))))
         = (\<exists>x\<in>set (stored (fst (session cs)) (snd (session cs))). MIN_VALUE \<le> x)"
  using summary_ends [OF assms(1) _ _ assms(2)] session_scans [of cs]
  by (simp_all add: scans_invalidated_def)

end
